theory Spec2Isabelle
  imports Main
begin

section \<open>JavaScript collections with live iteration\<close>

text \<open>
  The observer classes of \<^verbatim>\<open>ObserverPattern.ts\<close> keep their subscribers in
  \<^verbatim>\<open>Set\<close> and \<^verbatim>\<open>Map\<close> objects and deliver with \<^verbatim>\<open>forEach\<close>. ECMAScript
  specifies both collections as a list of entries in insertion order: \<^verbatim>\<open>delete\<close>
  replaces an entry by the marker \<^emph>\<open>empty\<close> (the list never shrinks), \<^verbatim>\<open>add\<close> appends
  unless the value is present, and \<^verbatim>\<open>forEach\<close> walks the list by index, skipping
  empty entries and reading the length again after every call, so that it sees what the
  callbacks do to the collection. A slot is \<open>None\<close> for an empty entry.

  A thrown exception is a value: a call returns \<open>(Some e, w)\<close> when it throws \<open>e\<close>,
  leaving the world \<open>w\<close> behind (a throw undoes nothing), and \<open>(None, w)\<close> when it returns.
\<close>

type_synonym exn = string
type_synonym 'e slots = "'e option list"

fun lives :: "'e slots \<Rightarrow> 'e list" where
  "lives [] = []"
| "lives (None # xs) = lives xs"
| "lives (Some x # xs) = x # lives xs"

definition set_add :: "'e slots \<Rightarrow> 'e \<Rightarrow> 'e slots" where
  "set_add xs a = (if Some a \<in> set xs then xs else xs @ [Some a])"

definition set_delete :: "'e slots \<Rightarrow> 'e \<Rightarrow> 'e slots" where
  "set_delete xs a = map (\<lambda>s. if s = Some a then None else s) xs"

definition set_size :: "'e slots \<Rightarrow> nat" where
  "set_size xs = length (lives xs)"

text \<open>\<^verbatim>\<open>Map.prototype.set\<close> overwrites the value of a present key in place.\<close>

definition map_set :: "('k \<times> 'v) slots \<Rightarrow> 'k \<Rightarrow> 'v \<Rightarrow> ('k \<times> 'v) slots" where
  "map_set xs k v =
     (if k \<in> fst ` set (lives xs)
      then map (\<lambda>s. case s of None \<Rightarrow> None
                        | Some (k', v') \<Rightarrow> if k' = k then Some (k, v) else Some (k', v')) xs
      else xs @ [Some (k, v)])"

definition map_delete :: "('k \<times> 'v) slots \<Rightarrow> 'k \<Rightarrow> ('k \<times> 'v) slots" where
  "map_delete xs k =
     map (\<lambda>s. case s of None \<Rightarrow> None
                 | Some (k', v') \<Rightarrow> if k' = k then None else Some (k', v')) xs"

text \<open>
  \<^verbatim>\<open>forEach\<close> over a collection that lives in the world: \<open>ents\<close> reads its entries
  from the current world, \<open>f\<close> is the call made for a live entry, \<open>i\<close> the index. A
  callback that keeps adding entries keeps the loop running, so the loop has fuel, and
  \<open>None\<close> is the loop that has not returned.
\<close>

fun forEach ::
  "nat \<Rightarrow> ('w \<Rightarrow> 'e slots) \<Rightarrow> ('e \<Rightarrow> 'w \<Rightarrow> exn option \<times> 'w) \<Rightarrow> nat \<Rightarrow> 'w
     \<Rightarrow> (exn option \<times> 'w) option" where
  "forEach 0 ents f i w = None"
| "forEach (Suc n) ents f i w =
     (if length (ents w) \<le> i then Some (None, w)
      else case ents w ! i of
             None \<Rightarrow> forEach n ents f (Suc i) w
           | Some e \<Rightarrow>
               (case f e w of
                  (Some x, w') \<Rightarrow> Some (Some x, w')
                | (None, w') \<Rightarrow> forEach n ents f (Suc i) w'))"

text \<open>
  The same calls over a fixed list of entries: what \<open>forEach\<close> does when no callback
  touches the collection.
\<close>

fun deliver :: "('e \<Rightarrow> 'w \<Rightarrow> exn option \<times> 'w) \<Rightarrow> 'e list \<Rightarrow> 'w \<Rightarrow> exn option \<times> 'w" where
  "deliver f [] w = (None, w)"
| "deliver f (e # es) w =
     (case f e w of
        (Some x, w') \<Rightarrow> (Some x, w')
      | (None, w') \<Rightarrow> deliver f es w')"

text \<open>
  How a collection may change under callbacks that only delete: same length, every slot
  as it was or empty.
\<close>

definition tombstoned :: "'e slots \<Rightarrow> 'e slots \<Rightarrow> bool" where
  "tombstoned xs ys = list_all2 (\<lambda>x y. y = x \<or> y = None) xs ys"

section \<open>EventEmitter\<close>

text \<open>
  A callback is known by its identity (functions are compared by reference); what it
  does when called is given by a table \<open>beh\<close> from identities to world transformers.
  The \<^verbatim>\<open>Set\<close> objects live in a store of their own, since \<^verbatim>\<open>removeAllListeners\<close>
  drops a topic's set from the map while an \<^verbatim>\<open>emit\<close> may still be walking it.
  The field \<open>calls\<close> is a history of the calls \<^verbatim>\<open>emit\<close> has made; the class does not
  have it, and no operation reads it. The unsubscribe function that \<^verbatim>\<open>on\<close> returns is
  \<open>off\<close> at the same topic and callback. \<^verbatim>\<open>once\<close>, which registers a wrapper closure
  of its own making, is left out.
\<close>

type_synonym cb = nat
type_synonym addr = nat

record 'd emitter =
  events :: "string \<rightharpoonup> addr"
  sets :: "addr \<Rightarrow> cb slots"
  fresh :: addr
  calls :: "(cb \<times> 'd) list"

type_synonym 'd listeners = "cb \<Rightarrow> 'd \<Rightarrow> 'd emitter \<Rightarrow> exn option \<times> 'd emitter"

definition EventEmitter_new :: "'d emitter" where
  "EventEmitter_new = \<lparr>events = Map.empty, sets = (\<lambda>_. []), fresh = 0, calls = []\<rparr>"

definition on :: "string \<Rightarrow> cb \<Rightarrow> 'd emitter \<Rightarrow> 'd emitter" where
  "on event callback w =
     (let w1 = (if events w event = None
                then w\<lparr>events := (events w)(event \<mapsto> fresh w),
                       sets := (sets w)(fresh w := []),
                       fresh := Suc (fresh w)\<rparr>
                else w)
      in case events w1 event of
           None \<Rightarrow> w1
         | Some a \<Rightarrow> w1\<lparr>sets := (sets w1)(a := set_add (sets w1 a) callback)\<rparr>)"

definition off :: "string \<Rightarrow> cb \<Rightarrow> 'd emitter \<Rightarrow> 'd emitter" where
  "off event callback w =
     (case events w event of
        None \<Rightarrow> w
      | Some a \<Rightarrow> w\<lparr>sets := (sets w)(a := set_delete (sets w a) callback)\<rparr>)"

definition emit_call :: "'d listeners \<Rightarrow> 'd \<Rightarrow> cb \<Rightarrow> 'd emitter \<Rightarrow> exn option \<times> 'd emitter" where
  "emit_call beh data callback w = beh callback data (w\<lparr>calls := calls w @ [(callback, data)]\<rparr>)"

definition emit ::
  "nat \<Rightarrow> 'd listeners \<Rightarrow> string \<Rightarrow> 'd \<Rightarrow> 'd emitter \<Rightarrow> (exn option \<times> 'd emitter) option" where
  "emit fuel beh event data w =
     (case events w event of
        None \<Rightarrow> Some (None, w)
      | Some a \<Rightarrow> forEach fuel (\<lambda>w'. sets w' a) (emit_call beh data) 0 w)"

definition listenerCount :: "string \<Rightarrow> 'd emitter \<Rightarrow> nat" where
  "listenerCount event w = (case events w event of None \<Rightarrow> 0 | Some a \<Rightarrow> set_size (sets w a))"

text \<open>The set \<^verbatim>\<open>this.events.get(event)\<close>, with no entries when the topic has none.\<close>

definition listeners_of :: "string \<Rightarrow> 'd emitter \<Rightarrow> cb slots" where
  "listeners_of event w = (case events w event of None \<Rightarrow> [] | Some a \<Rightarrow> sets w a)"

text \<open>\<^verbatim>\<open>if (event)\<close>: the empty string is falsy, as a missing argument is.\<close>

definition removeAllListeners :: "string option \<Rightarrow> 'd emitter \<Rightarrow> 'd emitter" where
  "removeAllListeners event w =
     (case event of
        None \<Rightarrow> w\<lparr>events := Map.empty\<rparr>
      | Some ev \<Rightarrow> if ev = [] then w\<lparr>events := Map.empty\<rparr>
                   else w\<lparr>events := (events w)(ev := None)\<rparr>)"

section \<open>ObservableStore\<close>

text \<open>
  The store is generic in its state type \<open>'a\<close>. The observer set is one object for the
  life of the store. \<open>updates\<close> is the history of the \<^verbatim>\<open>update\<close> calls made. The
  argument of \<^verbatim>\<open>setState\<close> is a value or a producer; a producer is called with the
  previous state and may throw, and like an observer it runs against the store.
\<close>

record 'a store =
  observers :: "cb slots"
  state :: 'a
  updates :: "(cb \<times> 'a) list"

type_synonym 'a observer_table = "cb \<Rightarrow> 'a \<Rightarrow> 'a store \<Rightarrow> exn option \<times> 'a store"

datatype 'a next_state =
    Value 'a
  | Producer "'a \<Rightarrow> 'a store \<Rightarrow> (exn + 'a) \<times> 'a store"

definition ObservableStore_new :: "'a \<Rightarrow> 'a store" where
  "ObservableStore_new initialState = \<lparr>observers = [], state = initialState, updates = []\<rparr>"

definition getState :: "'a store \<Rightarrow> 'a" where
  "getState w = state w"

definition update_call :: "'a observer_table \<Rightarrow> 'a \<Rightarrow> cb \<Rightarrow> 'a store \<Rightarrow> exn option \<times> 'a store" where
  "update_call beh data observer w = beh observer data (w\<lparr>updates := updates w @ [(observer, data)]\<rparr>)"

definition notify :: "nat \<Rightarrow> 'a observer_table \<Rightarrow> 'a \<Rightarrow> 'a store \<Rightarrow> (exn option \<times> 'a store) option" where
  "notify fuel beh data w = forEach fuel observers (update_call beh data) 0 w"

text \<open>
  \<^verbatim>\<open>setState\<close> compares the new state with the previous one by \<^verbatim>\<open>!==\<close>. A JavaScript
  value is \<^verbatim>\<open>NaN\<close>, the one value that differs from itself, or a value \<open>Val a\<close> that
  \<^verbatim>\<open>===\<close> compares by what it is: a primitive by its value, an object by its reference.
\<close>

datatype 'a js = NaN | Val 'a

fun strict_neq :: "'a js \<Rightarrow> 'a js \<Rightarrow> bool" where
  "strict_neq NaN y = True"
| "strict_neq x NaN = True"
| "strict_neq (Val a) (Val b) = (a \<noteq> b)"

definition next_value :: "'a next_state \<Rightarrow> 'a \<Rightarrow> 'a store \<Rightarrow> (exn + 'a) \<times> 'a store" where
  "next_value newState previousState w =
     (case newState of
        Producer p \<Rightarrow> p previousState w
      | Value v \<Rightarrow> (Inr v, w))"

definition setState ::
  "nat \<Rightarrow> 'a js observer_table \<Rightarrow> 'a js next_state \<Rightarrow> 'a js store
     \<Rightarrow> (exn option \<times> 'a js store) option" where
  "setState fuel beh newState w =
     (let previousState = state w
      in case next_value newState previousState w of
           (Inl e, w1) \<Rightarrow> Some (Some e, w1)
         | (Inr v, w1) \<Rightarrow>
             (let w2 = w1\<lparr>state := v\<rparr>
              in if strict_neq (state w2) previousState then notify fuel beh (state w2) w2
                 else Some (None, w2)))"

definition subscribe :: "'a observer_table \<Rightarrow> cb \<Rightarrow> 'a store \<Rightarrow> exn option \<times> 'a store" where
  "subscribe beh observer w =
     (let w1 = w\<lparr>observers := set_add (observers w) observer\<rparr>
      in update_call beh (state w1) observer w1)"

definition unsubscribe :: "cb \<Rightarrow> 'a store \<Rightarrow> 'a store" where
  "unsubscribe observer w = w\<lparr>observers := set_delete (observers w) observer\<rparr>"

text \<open>
  For a state that is an object, \<open>'a\<close> is the type of references and the objects are
  in a heap; a caller that mutates an object writes the heap at its reference.
\<close>

type_synonym 'o heap = "addr \<Rightarrow> 'o"

definition heap_write :: "'o heap \<Rightarrow> addr \<Rightarrow> 'o \<Rightarrow> 'o heap" where
  "heap_write h r v = h(r := v)"

section \<open>NewsPublisher\<close>

text \<open>
  \<^verbatim>\<open>new Date()\<close> is an input \<open>now\<close> of \<open>publish\<close>. The counter is a JavaScript number,
  exact far beyond any number of articles a run can publish, and is an \<open>int\<close> here.
  \<open>deliveries\<close> is the history of the \<^verbatim>\<open>onNews\<close> calls made. The two fields named
  \<^verbatim>\<open>id\<close> are \<open>article_id\<close> and \<open>sub_id\<close>; \<^verbatim>\<open>subscribe\<close> and \<^verbatim>\<open>unsubscribe\<close> of
  this class are \<open>news_subscribe\<close> and \<open>news_unsubscribe\<close>.

  Arrays are objects. The array \<^verbatim>\<open>this.articles\<close> is one array for the life of the
  publisher (the field is assigned once) and \<open>articles\<close> is what it holds. Every
  \<^verbatim>\<open>[...this.articles]\<close> makes a new array; these are \<open>copies\<close>, numbered as they are
  made. A reference to an array is \<open>LogArray\<close> or \<open>CopyArray n\<close>; who holds one can read
  the array and change it in place. The events in the arrays are values: a new array
  holds the same event objects as the log, and a write into an event object is not
  modelled.
\<close>

datatype array_ref = LogArray | CopyArray nat

record article_draft =
  title :: string
  category :: string
  content :: string

record NewsArticle = article_draft +
  article_id :: int
  publishedAt :: nat

record NewsSubscriber =
  sub_id :: string
  name :: string
  categories :: "string list"
  onNews :: cb

record publisher =
  subscribers :: "(string \<times> NewsSubscriber) slots"
  articles :: "NewsArticle list"
  articleIdCounter :: int
  deliveries :: "(NewsSubscriber \<times> NewsArticle) list"
  copies :: "nat \<Rightarrow> NewsArticle list"
  copy_count :: nat

type_synonym news_table = "cb \<Rightarrow> NewsArticle \<Rightarrow> publisher \<Rightarrow> exn option \<times> publisher"

definition NewsPublisher_new :: publisher where
  "NewsPublisher_new =
     \<lparr>subscribers = [], articles = [], articleIdCounter = 0, deliveries = [],
      copies = (\<lambda>_. []), copy_count = 0\<rparr>"

definition news_subscribe :: "NewsSubscriber \<Rightarrow> publisher \<Rightarrow> publisher" where
  "news_subscribe subscriber w =
     w\<lparr>subscribers := map_set (subscribers w) (sub_id subscriber) subscriber\<rparr>"

definition news_unsubscribe :: "string \<Rightarrow> publisher \<Rightarrow> publisher" where
  "news_unsubscribe subscriberId w = w\<lparr>subscribers := map_delete (subscribers w) subscriberId\<rparr>"

definition interested :: "NewsSubscriber \<Rightarrow> string \<Rightarrow> bool" where
  "interested subscriber cat =
     (''all'' \<in> set (categories subscriber) \<or> cat \<in> set (categories subscriber))"

definition news_call ::
  "news_table \<Rightarrow> string \<Rightarrow> NewsArticle \<Rightarrow> string \<times> NewsSubscriber \<Rightarrow> publisher
     \<Rightarrow> exn option \<times> publisher" where
  "news_call beh cat newArticle entry w =
     (let subscriber = snd entry
      in if interested subscriber cat
         then beh (onNews subscriber) newArticle
                (w\<lparr>deliveries := deliveries w @ [(subscriber, newArticle)]\<rparr>)
         else (None, w))"

definition enrich :: "article_draft \<Rightarrow> int \<Rightarrow> nat \<Rightarrow> NewsArticle" where
  "enrich a n now =
     \<lparr>title = title a, category = category a, content = content a,
      article_id = n, publishedAt = now\<rparr>"

definition publish ::
  "nat \<Rightarrow> news_table \<Rightarrow> nat \<Rightarrow> article_draft \<Rightarrow> publisher
     \<Rightarrow> ((exn + NewsArticle) \<times> publisher) option" where
  "publish fuel beh now a w =
     (let n = articleIdCounter w + 1;
          newArticle = enrich a n now;
          w1 = w\<lparr>articleIdCounter := n, articles := articles w @ [newArticle]\<rparr>
      in case forEach fuel subscribers (news_call beh (category a) newArticle) 0 w1 of
           None \<Rightarrow> None
         | Some (Some e, w') \<Rightarrow> Some (Inl e, w')
         | Some (None, w') \<Rightarrow> Some (Inr newArticle, w'))"

definition read_array :: "array_ref \<Rightarrow> publisher \<Rightarrow> NewsArticle list" where
  "read_array r w = (case r of LogArray \<Rightarrow> articles w | CopyArray n \<Rightarrow> copies w n)"

text \<open>A change in place (a \<^verbatim>\<open>push\<close>, a \<^verbatim>\<open>splice\<close>, an assignment to an index) of an array.\<close>

definition array_update ::
  "array_ref \<Rightarrow> (NewsArticle list \<Rightarrow> NewsArticle list) \<Rightarrow> publisher \<Rightarrow> publisher" where
  "array_update r f w =
     (case r of
        LogArray \<Rightarrow> w\<lparr>articles := f (articles w)\<rparr>
      | CopyArray n \<Rightarrow> w\<lparr>copies := (copies w)(n := f (copies w n))\<rparr>)"

text \<open>\<^verbatim>\<open>return [...this.articles]\<close>: a new array with the elements of the log.\<close>

definition getArticles :: "publisher \<Rightarrow> array_ref \<times> publisher" where
  "getArticles w =
     (CopyArray (copy_count w),
      w\<lparr>copies := (copies w)(copy_count w := articles w), copy_count := Suc (copy_count w)\<rparr>)"

definition getSubscriberCount :: "publisher \<Rightarrow> nat" where
  "getSubscriberCount w = set_size (subscribers w)"

text \<open>
  A caller that makes one \<^verbatim>\<open>publish\<close> call after another, each at its own time, and
  goes on when a call throws.
\<close>

fun publish_all :: "nat \<Rightarrow> news_table \<Rightarrow> (nat \<times> article_draft) list \<Rightarrow> publisher \<Rightarrow> publisher option" where
  "publish_all fuel beh [] w = Some w"
| "publish_all fuel beh ((now, a) # rest) w =
     (case publish fuel beh now a w of
        None \<Rightarrow> None
      | Some (r, w') \<Rightarrow> publish_all fuel beh rest w')"

text \<open>
  The log the specification asks for: the drafts in the order of their publication, numbered
  from \<open>n + 1\<close> on.
\<close>

fun stamp :: "int \<Rightarrow> (nat \<times> article_draft) list \<Rightarrow> NewsArticle list" where
  "stamp n [] = []"
| "stamp n ((now, a) # rest) = enrich a (n + 1) now # stamp (n + 1) rest"

text \<open>
  What the log is after any number of \<^verbatim>\<open>publish\<close> calls, nested ones included: the
  identifiers of the logged events are 1 up to the counter.
\<close>

definition log_ok :: "publisher \<Rightarrow> bool" where
  "log_ok w = (0 \<le> articleIdCounter w \<and> map article_id (articles w) = [1..articleIdCounter w])"

section \<open>Example subscribers and producers\<close>

text \<open>
  Two tables of callbacks: one where every callback returns at once, one where the
  callback \<open>t\<close> throws and the others return. Both leave the world as it is.
\<close>

definition quiet_table :: "cb \<Rightarrow> 'd \<Rightarrow> 'w \<Rightarrow> exn option \<times> 'w" where
  "quiet_table c d w = (None, w)"

definition throwing_table :: "cb \<Rightarrow> cb \<Rightarrow> 'd \<Rightarrow> 'w \<Rightarrow> exn option \<times> 'w" where
  "throwing_table t c d w = (if c = t then (Some ''boom'', w) else (None, w))"

text \<open>
  A store \<^verbatim>\<open>new ObservableStore(0)\<close> with the observers 1 and 2 subscribed; one with
  the observers 1, 2 and 3; one whose state is \<^verbatim>\<open>NaN\<close>, with the observer 1.
\<close>

definition two_observers :: "int js store" where
  "two_observers =
     snd (subscribe quiet_table 2 (snd (subscribe quiet_table 1 (ObservableStore_new (Val 0)))))"

definition three_watchers :: "int js store" where
  "three_watchers = \<lparr>observers = [Some 1, Some 2, Some 3], state = Val 0, updates = []\<rparr>"

definition nan_store :: "int js store" where
  "nan_store = \<lparr>observers = [Some 1], state = NaN, updates = []\<rparr>"

text \<open>A heap of objects \<^verbatim>\<open>{count: n}\<close>, each given by its \<open>n\<close>; all are \<^verbatim>\<open>{count: 0}\<close>.\<close>

definition count_heap :: "int heap" where
  "count_heap = (\<lambda>r. 0)"

text \<open>
  Callbacks that unsubscribe: the callback \<open>r\<close> unsubscribes \<open>v\<close> when it is called, the
  others do nothing. An emitter and a store with the subscribers 1, 2 and 3.
\<close>

definition remover :: "cb \<Rightarrow> cb \<Rightarrow> cb \<Rightarrow> cb list" where
  "remover r v c = (if c = r then [v] else [])"

definition off_table :: "string \<Rightarrow> cb \<Rightarrow> cb \<Rightarrow> 'd listeners" where
  "off_table ev r v c d w = (None, fold (off ev) (remover r v c) w)"

definition unsubscribe_table :: "cb \<Rightarrow> cb \<Rightarrow> 'a observer_table" where
  "unsubscribe_table r v c d w = (None, fold unsubscribe (remover r v c) w)"

definition three_listeners :: "nat emitter" where
  "three_listeners = on ''news'' 3 (on ''news'' 2 (on ''news'' 1 EventEmitter_new))"

definition three_observers :: "int store" where
  "three_observers = \<lparr>observers = [Some 1, Some 2, Some 3], state = 0, updates = []\<rparr>"

text \<open>
  A publisher with the subscriber A, interested in tech, and B, interested in everything;
  a sports reader that registers under A's id; a sports and a tech article.
\<close>

definition tech_reader :: NewsSubscriber where
  "tech_reader = \<lparr>sub_id = ''a'', name = ''A'', categories = [''tech''], onNews = 1\<rparr>"

definition all_reader :: NewsSubscriber where
  "all_reader = \<lparr>sub_id = ''b'', name = ''B'', categories = [''all''], onNews = 2\<rparr>"

definition sports_reader :: NewsSubscriber where
  "sports_reader = \<lparr>sub_id = ''a'', name = ''A2'', categories = [''sports''], onNews = 3\<rparr>"

definition readers :: publisher where
  "readers = news_subscribe all_reader (news_subscribe tech_reader NewsPublisher_new)"


definition sports_draft :: article_draft where
  "sports_draft = \<lparr>title = ''Cup final'', category = ''sports'', content = ''2:1''\<rparr>"

definition tech_draft :: article_draft where
  "tech_draft = \<lparr>title = ''Chips'', category = ''tech'', content = ''3nm''\<rparr>"

text \<open>Three drafts with their times of publication.\<close>

definition three_drafts :: "(nat \<times> article_draft) list" where
  "three_drafts =
     [(10, sports_draft),
      (20, tech_draft),
      (30, \<lparr>title = ''Rain'', category = ''weather'', content = ''more''\<rparr>)]"

section \<open>Properties of the collections\<close>

lemma lives_append: "lives (xs @ ys) = lives xs @ lives ys"
  by (induction xs rule: lives.induct) simp_all

subsection \<open>Live iteration over a collection no callback touches\<close>

lemma lives_drop_None:
  "i < length xs \<Longrightarrow> xs ! i = None \<Longrightarrow> lives (drop i xs) = lives (drop (Suc i) xs)"
  using Cons_nth_drop_Suc[of i xs] by (metis lives.simps(2))

lemma lives_drop_Some:
  "i < length xs \<Longrightarrow> xs ! i = Some e \<Longrightarrow> lives (drop i xs) = e # lives (drop (Suc i) xs)"
  using Cons_nth_drop_Suc[of i xs] by (metis lives.simps(3))

lemma set_lives: "set (lives xs) = {e. Some e \<in> set xs}"
  by (induction xs rule: lives.induct) auto

lemma forEach_deliver_upto:
  assumes frame: "\<And>e w. ents w = xs \<Longrightarrow> e \<in> set (lives (take m xs)) \<Longrightarrow> fst (f e w) = None
                    \<Longrightarrow> ents (snd (f e w)) = xs"
    and "ents w = xs" and "length xs - i < fuel"
    and "length xs \<le> m \<or> fst (deliver f (lives (drop i (take m xs))) w) \<noteq> None"
  shows "forEach fuel ents f i w = Some (deliver f (lives (drop i (take m xs))) w)"
  using assms(2-)
proof (induction fuel arbitrary: i w)
  case 0
  then show ?case by simp
next
  case (Suc n)
  let ?ys = "take m xs"
  show ?case
  proof (cases "length xs \<le> i")
    case True
    then show ?thesis using Suc.prems by simp
  next
    case False
    then have i: "i < length xs" by simp
    have im: "i < m"
    proof (rule ccontr)
      assume "\<not> i < m"
      then have "drop i ?ys = []" by simp
      then show False using Suc.prems(3) i \<open>\<not> i < m\<close> by simp
    qed
    have iy: "i < length ?ys" "?ys ! i = xs ! i" using i im by simp_all
    show ?thesis
    proof (cases "xs ! i")
      case None
      have l: "lives (drop i ?ys) = lives (drop (Suc i) ?ys)"
        using lives_drop_None[OF iy(1)] iy(2) None by simp
      have "forEach n ents f (Suc i) w = Some (deliver f (lives (drop (Suc i) ?ys)) w)"
        using Suc.IH[of w "Suc i"] Suc.prems i l by simp
      then show ?thesis using None i Suc.prems(1) l by simp
    next
      case (Some e)
      have l: "lives (drop i ?ys) = e # lives (drop (Suc i) ?ys)"
        using lives_drop_Some[OF iy(1)] iy(2) Some by simp
      have e: "e \<in> set (lives ?ys)"
        using iy nth_mem[of i ?ys] Some by (simp add: set_lives)
      obtain r w' where fe: "f e w = (r, w')" by (cases "f e w")
      show ?thesis
      proof (cases r)
        case None
        have w': "ents w' = xs" using frame[OF Suc.prems(1) e] fe None by simp
        have "length xs \<le> m \<or> fst (deliver f (lives (drop (Suc i) ?ys)) w') \<noteq> None"
          using Suc.prems(3) l fe None by simp
        then have "forEach n ents f (Suc i) w' = Some (deliver f (lives (drop (Suc i) ?ys)) w')"
          using Suc.IH[of w' "Suc i"] w' Suc.prems(2) i by simp
        then show ?thesis using None Some i fe Suc.prems(1) l by simp
      next
        case (Some x)
        then show ?thesis using \<open>xs ! i = Some e\<close> i fe Suc.prems(1) l by simp
      qed
    qed
  qed
qed

lemma forEach_deliver:
  assumes "\<And>e w. ents w = xs \<Longrightarrow> e \<in> set (lives xs) \<Longrightarrow> fst (f e w) = None
                    \<Longrightarrow> ents (snd (f e w)) = xs"
    and "ents w = xs" and "length xs < fuel"
  shows "forEach fuel ents f 0 w = Some (deliver f (lives xs) w)"
  using forEach_deliver_upto[of ents xs "length xs" f w 0 fuel] assms by simp

lemma deliver_append:
  "deliver f (xs @ ys) w =
     (case deliver f xs w of (Some e, w') \<Rightarrow> (Some e, w') | (None, w') \<Rightarrow> deliver f ys w')"
  by (induction xs arbitrary: w) (auto split: prod.splits option.splits)

lemma deliver_quiet:
  "(\<And>x w. x \<in> set xs \<Longrightarrow> f x w = (None, lg x w)) \<Longrightarrow> deliver f xs w = (None, fold lg xs w)"
  by (induction xs arbitrary: w) simp_all

subsection \<open>Collections that callbacks only delete from\<close>

lemma tombstoned_refl: "tombstoned xs xs"
  by (simp add: tombstoned_def list_all2_same)

lemma tombstoned_trans: "tombstoned xs ys \<Longrightarrow> tombstoned ys zs \<Longrightarrow> tombstoned xs zs"
  unfolding tombstoned_def list_all2_conv_all_nth by metis

lemma tombstoned_length: "tombstoned xs ys \<Longrightarrow> length ys = length xs"
  by (simp add: tombstoned_def list_all2_lengthD)

lemma tombstoned_nth: "tombstoned xs ys \<Longrightarrow> i < length xs \<Longrightarrow> ys ! i = xs ! i \<or> ys ! i = None"
  using list_all2_nthD[of "\<lambda>x y. y = x \<or> y = None" xs ys i] by (simp add: tombstoned_def)

lemma tombstoned_drop: "tombstoned xs ys \<Longrightarrow> tombstoned (drop i xs) (drop i ys)"
  by (simp add: tombstoned_def)

lemma tombstoned_lives: "tombstoned xs ys \<Longrightarrow> set (lives ys) \<subseteq> set (lives xs)"
  unfolding tombstoned_def
  by (induction xs ys rule: list_all2_induct) (auto simp: set_lives)

lemma tombstoned_distinct: "tombstoned xs ys \<Longrightarrow> distinct (lives xs) \<Longrightarrow> distinct (lives ys)"
  unfolding tombstoned_def
proof (induction xs ys rule: list_all2_induct)
  case Nil
  then show ?case by simp
next
  case (Cons x xs y ys)
  have sub: "set (lives ys) \<subseteq> set (lives xs)"
    using Cons.hyps(2) tombstoned_lives by (simp add: tombstoned_def)
  show ?case
  proof (cases x)
    case None
    then show ?thesis using Cons by simp
  next
    case (Some a)
    then show ?thesis using Cons sub by (cases y) auto
  qed
qed

lemma tombstoned_set_delete: "tombstoned xs (set_delete xs a)"
  by (simp add: tombstoned_def set_delete_def list_all2_map2 list_all2_same)

lemma distinct_lives_drop: "distinct (lives xs) \<Longrightarrow> distinct (lives (drop i xs))"
  using lives_append[of "take i xs" "drop i xs"] by (metis append_take_drop_id distinct_append)

lemma forEach_tombstoning:
  assumes step: "\<And>e w. I w \<Longrightarrow> e \<in> E \<Longrightarrow>
        fst (f e w) = None \<and> I (snd (f e w)) \<and> tombstoned (ents w) (ents (snd (f e w)))
        \<and> tr (snd (f e w)) = tr w @ g e"
    and "I w" and "set (lives (ents w)) \<subseteq> E" and "distinct (lives (ents w))"
    and "length (ents w) - i < fuel"
  shows "\<exists>vs w'. forEach fuel ents f i w = Some (None, w') \<and> I w'
           \<and> tr w' = tr w @ concat (map g vs) \<and> distinct vs
           \<and> set vs \<subseteq> set (lives (drop i (ents w)))
           \<and> set (lives (drop i (ents w'))) \<subseteq> set vs
           \<and> tombstoned (ents w) (ents w')"
  using assms(2-)
proof (induction fuel arbitrary: i w)
  case 0
  then show ?case by simp
next
  case (Suc n)
  show ?case
  proof (cases "length (ents w) \<le> i")
    case True
    then have "forEach (Suc n) ents f i w = Some (None, w)" by simp
    then show ?thesis using True Suc.prems(1) tombstoned_refl[of "ents w"]
      by (intro exI[of _ "[]"] exI[of _ w]) simp
  next
    case False
    then have i: "i < length (ents w)" by simp
    show ?thesis
    proof (cases "ents w ! i")
      case None
      have "length (ents w) - Suc i < n" using Suc.prems(4) i by simp
      from Suc.IH[OF Suc.prems(1) Suc.prems(2) Suc.prems(3) this]
      obtain vs w' where r: "forEach n ents f (Suc i) w = Some (None, w')" "I w'"
        "tr w' = tr w @ concat (map g vs)" "distinct vs"
        "set vs \<subseteq> set (lives (drop (Suc i) (ents w)))"
        "set (lives (drop (Suc i) (ents w'))) \<subseteq> set vs"
        "tombstoned (ents w) (ents w')" by blast
      have "ents w' ! i = None" using tombstoned_nth[OF r(7) i] None by simp
      then have "lives (drop i (ents w')) = lives (drop (Suc i) (ents w'))"
        using i tombstoned_length[OF r(7)] by (simp add: lives_drop_None)
      moreover have "forEach (Suc n) ents f i w = Some (None, w')" using r(1) None i by simp
      ultimately show ?thesis using r None i by (auto simp: lives_drop_None)
    next
      case (Some e)
      then have eE: "e \<in> E" using i nth_mem[of i "ents w"] Suc.prems(2) by (auto simp: set_lives)
      obtain r w1 where fe: "f e w = (r, w1)" by (cases "f e w")
      from step[OF Suc.prems(1) eE] fe
      have s: "r = None" "I w1" "tombstoned (ents w) (ents w1)" "tr w1 = tr w @ g e" by simp_all
      have sub1: "set (lives (ents w1)) \<subseteq> E" using tombstoned_lives[OF s(3)] Suc.prems(2) by blast
      have d1: "distinct (lives (ents w1))" using tombstoned_distinct[OF s(3) Suc.prems(3)] .
      have "length (ents w1) - Suc i < n" using Suc.prems(4) i tombstoned_length[OF s(3)] by simp
      from Suc.IH[OF s(2) sub1 d1 this]
      obtain vs w' where r: "forEach n ents f (Suc i) w1 = Some (None, w')" "I w'"
        "tr w' = tr w1 @ concat (map g vs)" "distinct vs"
        "set vs \<subseteq> set (lives (drop (Suc i) (ents w1)))"
        "set (lives (drop (Suc i) (ents w'))) \<subseteq> set vs"
        "tombstoned (ents w1) (ents w')" by blast
      have t: "tombstoned (ents w) (ents w')" using tombstoned_trans[OF s(3) r(7)] .
      have run: "forEach (Suc n) ents f i w = Some (None, w')" using r(1) Some i fe s(1) by simp
      have ld: "lives (drop i (ents w)) = e # lives (drop (Suc i) (ents w))"
        using i Some by (simp add: lives_drop_Some)
      have "set vs \<subseteq> set (lives (drop (Suc i) (ents w)))"
        using r(5) tombstoned_lives[OF tombstoned_drop[OF s(3), of "Suc i"]] by blast
      moreover have "e \<notin> set (lives (drop (Suc i) (ents w)))"
        using distinct_lives_drop[OF Suc.prems(3), of i] ld by simp
      ultimately have dv: "distinct (e # vs)" "set (e # vs) \<subseteq> set (lives (drop i (ents w)))"
        using r(4) ld by auto
      have "set (lives (drop i (ents w'))) \<subseteq> set (e # vs)"
      proof (cases "ents w' ! i")
        case None
        then show ?thesis using r(6) i tombstoned_length[OF t] by (auto simp: lives_drop_None)
      next
        case (Some e')
        then have "e' = e" using tombstoned_nth[OF t i] \<open>ents w ! i = Some e\<close> by simp
        then show ?thesis using Some r(6) i tombstoned_length[OF t] by (auto simp: lives_drop_Some)
      qed
      moreover have "tr w' = tr w @ concat (map g (e # vs))" using r(3) s(4) by simp
      ultimately show ?thesis using run r(2) dv t by blast
    qed
  qed
qed

subsection \<open>Callbacks that leave the collection alone\<close>

lemma forEach_quiet:
  assumes f: "\<And>e w'. e \<in> set (lives xs) \<Longrightarrow> f e w' = (None, lg e w')"
    and lg: "\<And>e w'. ents (lg e w') = ents w'"
    and w: "ents w = xs" and fuel: "length xs < fuel"
  shows "forEach fuel ents f 0 w = Some (None, fold lg (lives xs) w)"
proof -
  have "forEach fuel ents f 0 w = Some (deliver f (lives xs) w)"
    using w fuel by (intro forEach_deliver) (simp_all add: f lg)
  then show ?thesis using deliver_quiet[of "lives xs" f lg w] f by simp
qed

lemma forEach_throw:
  assumes f: "\<And>e w'. e \<in> set (lives xs) \<Longrightarrow> f e w' = (None, lg e w')"
    and t: "\<And>w'. f t w' = (Some x, lg t w')"
    and lg: "\<And>e w'. ents (lg e w') = ents w'"
    and w: "ents w = xs @ Some t # ys" and fuel: "length (xs @ Some t # ys) < fuel"
  shows "forEach fuel ents f 0 w = Some (Some x, lg t (fold lg (lives xs) w))"
proof -
  let ?zs = "xs @ Some t # ys"
  have tk: "take (Suc (length xs)) ?zs = xs @ [Some t]" by simp
  have d: "deliver f (lives (xs @ [Some t])) w = (Some x, lg t (fold lg (lives xs) w))"
    using deliver_quiet[of "lives xs" f lg w] f t by (simp add: lives_append deliver_append)
  have "forEach fuel ents f 0 w = Some (deliver f (lives (drop 0 (take (Suc (length xs)) ?zs))) w)"
  proof (rule forEach_deliver_upto)
    fix e w' assume "ents w' = ?zs" "e \<in> set (lives (take (Suc (length xs)) ?zs))" "fst (f e w') = None"
    then show "ents (snd (f e w')) = ?zs" using f[of e w'] t[of w'] lg by (auto simp: lives_append)
  next
    show "ents w = ?zs" by (rule w)
    show "length ?zs - 0 < fuel" using fuel by simp
    show "length ?zs \<le> Suc (length xs) \<or> fst (deliver f (lives (drop 0 (take (Suc (length xs)) ?zs))) w) \<noteq> None"
      using d by simp
  qed
  then show ?thesis using d by simp
qed

lemma count_list_distinct: "distinct xs \<Longrightarrow> x \<in> set xs \<Longrightarrow> count_list xs x = 1"
  by (induction xs) auto

lemma count_list_distinct_le: "distinct xs \<Longrightarrow> count_list xs x \<le> 1"
  by (induction xs) auto

section \<open>ObservableStore: notification\<close>

lemma fold_updates:
  "fold (\<lambda>c w. w\<lparr>updates := updates w @ [(c, v)]\<rparr>) cs w
     = w\<lparr>updates := updates w @ map (\<lambda>c. (c, v)) cs\<rparr>"
  by (induction cs arbitrary: w) simp_all

lemma notify_quiet:
  assumes "\<forall>c\<in>set (lives (observers w)). \<forall>w'. beh c v w' = (None, w')"
    and "length (observers w) < fuel"
  shows "notify fuel beh v w
           = Some (None, w\<lparr>updates := updates w @ map (\<lambda>c. (c, v)) (lives (observers w))\<rparr>)"
proof -
  have "forEach fuel observers (update_call beh v) 0 w
          = Some (None, fold (\<lambda>c w. w\<lparr>updates := updates w @ [(c, v)]\<rparr>) (lives (observers w)) w)"
    using assms by (intro forEach_quiet) (simp_all add: update_call_def)
  then show ?thesis by (simp add: notify_def fold_updates)
qed

lemma notify_throw:
  assumes "observers w = xs @ Some t # ys"
    and "\<forall>c\<in>set (lives xs). \<forall>w'. beh c v w' = (None, w')"
    and "\<forall>w'. beh t v w' = (Some e, w')"
    and "length (observers w) < fuel"
  shows "notify fuel beh v w
           = Some (Some e, w\<lparr>updates := updates w @ map (\<lambda>c. (c, v)) (lives xs @ [t])\<rparr>)"
proof -
  have "forEach fuel observers (update_call beh v) 0 w
          = Some (Some e, (\<lambda>c w. w\<lparr>updates := updates w @ [(c, v)]\<rparr>) t
               (fold (\<lambda>c w. w\<lparr>updates := updates w @ [(c, v)]\<rparr>) (lives xs) w))"
    using assms by (intro forEach_throw) (simp_all add: update_call_def)
  then show ?thesis by (simp add: notify_def fold_updates)
qed

text \<open>
  C8. Subscribing an observer calls its \<^verbatim>\<open>update\<close> once, with the current state, as part
  of the \<^verbatim>\<open>subscribe\<close> call itself: the call is made in the store that has the observer
  added and this one call recorded, whether or not a \<^verbatim>\<open>setState\<close> ever follows.
\<close>

theorem subscribe_replays_current_state:
  "subscribe beh observer w =
     beh observer (state w)
       (w\<lparr>observers := set_add (observers w) observer,
          updates := updates w @ [(observer, state w)]\<rparr>)"
  by (simp add: subscribe_def update_call_def)

text \<open>
  C4. When the producer passed to \<^verbatim>\<open>setState\<close> throws, \<^verbatim>\<open>setState\<close> throws the same
  exception and does nothing more: the store is as the producer left it, so for a producer
  that does not itself touch the store (\<open>w1 = w\<close>) the state is unchanged and no
  observer has been called.
\<close>

theorem setState_producer_throws:
  assumes "p (state w) w = (Inl e, w1)"
  shows "setState fuel beh (Producer p) w = Some (Some e, w1)"
  using assms by (simp add: setState_def next_value_def)

theorem setState_producer_throws_witness:
  "setState 0 quiet_table (Producer (\<lambda>prev w. (Inl ''boom'', w)))
       (snd (subscribe quiet_table 1 (ObservableStore_new (Val (0::int)))))
     = Some (Some ''boom'', snd (subscribe quiet_table 1 (ObservableStore_new (Val 0))))"
  using setState_producer_throws[of "\<lambda>prev w. (Inl ''boom'', w)"
      "snd (subscribe quiet_table 1 (ObservableStore_new (Val (0::int))))" "''boom''"
      "snd (subscribe quiet_table 1 (ObservableStore_new (Val (0::int))))" 0 quiet_table]
  by simp

lemma two_observers_eq:
  "two_observers
     = \<lparr>observers = [Some 1, Some 2], state = Val 0, updates = [(1, Val 0), (2, Val 0)]\<rparr>"
  by (simp add: two_observers_def subscribe_def update_call_def set_add_def quiet_table_def
      ObservableStore_new_def)

lemma setState_throw:
  assumes "next_value newState (state s) s = (Inr v, s)"
    and "observers s = xs @ Some t # ys"
    and "\<forall>c\<in>set (lives xs). \<forall>s'. obs c v s' = (None, s')"
    and "\<forall>s'. obs t v s' = (Some e, s')"
    and "strict_neq v (state s)"
    and "length (observers s) < fuel"
  shows "setState fuel obs newState s
           = Some (Some e, s\<lparr>state := v, updates := updates s @ map (\<lambda>c. (c, v)) (lives xs @ [t])\<rparr>)"
  using notify_throw[of "s\<lparr>state := v\<rparr>" xs t ys obs v e fuel] assms
  by (simp add: setState_def)

text \<open>
  C3 claims that every \<^verbatim>\<open>setState\<close> call with a changed value updates every registered
  observer once, and that a value identical to the previous one updates nobody. In the store
  with the observers 1, 2 and 3, where the \<^verbatim>\<open>update\<close> of observer 1 throws, a change from 0
  to 9 is committed and thrown out of \<^verbatim>\<open>setState\<close> with the observers 2 and 3 never
  called. In the store whose state is \<^verbatim>\<open>NaN\<close>, \<^verbatim>\<open>setState(NaN)\<close> calls the observer,
  since \<^verbatim>\<open>NaN !== NaN\<close>.
\<close>

theorem setState_notification_counterexample:
  "setState 4 (throwing_table 1) (Value (Val 9)) three_watchers
     = Some (Some ''boom'', three_watchers\<lparr>state := Val 9, updates := [(1, Val 9)]\<rparr>)
   \<and> setState 2 quiet_table (Value NaN) nan_store
     = Some (None, nan_store\<lparr>state := NaN, updates := [(1, NaN)]\<rparr>)"
  by (simp add: setState_def next_value_def notify_def update_call_def three_watchers_def
      nan_store_def throwing_table_def quiet_table_def eval_nat_numeral)

text \<open>
  C3, amended. \<^verbatim>\<open>setState\<close> notifies exactly when the computed value is \<^verbatim>\<open>!==\<close> the
  previous state (a different value or reference, or \<^verbatim>\<open>NaN\<close>). When it is not, no
  \<^verbatim>\<open>update\<close> is called, whatever the observers are. When it is and every registered
  observer's \<^verbatim>\<open>update\<close> returns, each of them is called exactly once with the new value.
  When the \<^verbatim>\<open>update\<close> of the observer \<open>t\<close> throws, the observers before it and \<open>t\<close> have
  been called once, those after it are not called, and \<^verbatim>\<open>setState\<close> throws with the new
  state committed. The value is computed without touching the store, and the observers that
  return do not touch it.
\<close>

theorem setState_notifies_when_changed:
  assumes "next_value newState (state w) w = (Inr v, w)"
    and "distinct (lives (observers w))"
    and "length (observers w) < fuel"
  shows "(\<not> strict_neq v (state w) \<longrightarrow>
            setState fuel beh newState w = Some (None, w\<lparr>state := v\<rparr>))
       \<and> (strict_neq v (state w)
            \<and> (\<forall>c\<in>set (lives (observers w)). \<forall>w'. beh c v w' = (None, w')) \<longrightarrow>
            setState fuel beh newState w
              = Some (None, w\<lparr>state := v,
                               updates := updates w @ map (\<lambda>c. (c, v)) (lives (observers w))\<rparr>)
            \<and> (\<forall>c\<in>set (lives (observers w)).
                  count_list (map (\<lambda>c. (c, v)) (lives (observers w))) (c, v) = 1))
       \<and> (strict_neq v (state w) \<and> observers w = xs @ Some t # ys
            \<and> (\<forall>c\<in>set (lives xs). \<forall>w'. beh c v w' = (None, w'))
            \<and> (\<forall>w'. beh t v w' = (Some e, w')) \<longrightarrow>
            setState fuel beh newState w
              = Some (Some e, w\<lparr>state := v,
                                 updates := updates w @ map (\<lambda>c. (c, v)) (lives xs @ [t])\<rparr>))"
proof (intro conjI impI)
  assume "\<not> strict_neq v (state w)"
  then show "setState fuel beh newState w = Some (None, w\<lparr>state := v\<rparr>)"
    using assms(1) by (simp add: setState_def)
next
  assume a: "strict_neq v (state w)
    \<and> (\<forall>c\<in>set (lives (observers w)). \<forall>w'. beh c v w' = (None, w'))"
  let ?new = "map (\<lambda>c. (c, v)) (lives (observers w))"
  have "notify fuel beh v (w\<lparr>state := v\<rparr>)
          = Some (None, w\<lparr>state := v\<rparr>\<lparr>updates := updates (w\<lparr>state := v\<rparr>) @ ?new\<rparr>)"
    using notify_quiet[of "w\<lparr>state := v\<rparr>" beh v fuel] a assms(3) by simp
  then show "setState fuel beh newState w = Some (None, w\<lparr>state := v, updates := updates w @ ?new\<rparr>)"
    using assms(1) a by (simp add: setState_def)
  show "\<forall>c\<in>set (lives (observers w)). count_list ?new (c, v) = 1"
  proof
    fix c assume c: "c \<in> set (lives (observers w))"
    have "inj_on (\<lambda>c. (c, v)) (set (lives (observers w)))" by (simp add: inj_on_def)
    then have "distinct ?new" using assms(2) by (simp add: distinct_map)
    moreover have "(c, v) \<in> set ?new" using c by simp
    ultimately show "count_list ?new (c, v) = 1" by (simp add: count_list_distinct)
  qed
next
  assume a: "strict_neq v (state w) \<and> observers w = xs @ Some t # ys
    \<and> (\<forall>c\<in>set (lives xs). \<forall>w'. beh c v w' = (None, w'))
    \<and> (\<forall>w'. beh t v w' = (Some e, w'))"
  show "setState fuel beh newState w
          = Some (Some e, w\<lparr>state := v,
                             updates := updates w @ map (\<lambda>c. (c, v)) (lives xs @ [t])\<rparr>)"
    using setState_throw[of newState w v xs t ys beh e fuel] assms(1,3) a by simp
qed

theorem setState_notifies_when_changed_witness:
  "setState 3 quiet_table (Value (Val 1)) two_observers
     = Some (None, two_observers\<lparr>state := Val 1,
                     updates := updates two_observers @ [(1, Val 1), (2, Val 1)]\<rparr>)
   \<and> setState 3 quiet_table (Value (Val 0)) two_observers
     = Some (None, two_observers\<lparr>state := Val 0\<rparr>)
   \<and> setState 4 (throwing_table 2) (Producer (\<lambda>prev w. (Inr (Val 5), w))) three_watchers
     = Some (Some ''boom'', three_watchers\<lparr>state := Val 5,
                              updates := updates three_watchers @ [(1, Val 5), (2, Val 5)]\<rparr>)"
proof -
  have d2: "distinct (lives (observers two_observers))" "length (observers two_observers) < 3"
    by (simp_all add: two_observers_eq)
  have d3: "distinct (lives (observers three_watchers))" "length (observers three_watchers) < 4"
    by (simp_all add: three_watchers_def)
  have n1: "next_value (Value (Val 1)) (state two_observers) two_observers = (Inr (Val 1), two_observers)"
    and n0: "next_value (Value (Val 0)) (state two_observers) two_observers = (Inr (Val 0), two_observers)"
    and n5: "next_value (Producer (\<lambda>prev w. (Inr (Val 5), w))) (state three_watchers) three_watchers
              = (Inr (Val 5), three_watchers)"
    by (simp_all add: next_value_def)
  have q: "\<forall>c\<in>set (lives (observers two_observers)). \<forall>w'.
             quiet_table c (Val (1::int)) (w' :: int js store) = (None, w')"
    by (simp add: quiet_table_def)
  have c1: "strict_neq (Val 1) (state two_observers)" "\<not> strict_neq (Val 0) (state two_observers)"
    by (simp_all add: two_observers_eq)
  have t5: "strict_neq (Val 5) (state three_watchers)"
    "observers three_watchers = [Some 1] @ Some 2 # [Some 3]"
    "\<forall>c\<in>set (lives [Some 1]). \<forall>w'. throwing_table 2 c (Val (5::int)) (w' :: int js store) = (None, w')"
    "\<forall>w'. throwing_table 2 2 (Val (5::int)) (w' :: int js store) = (Some ''boom'', w')"
    by (simp_all add: three_watchers_def throwing_table_def)
  have a: "setState 3 quiet_table (Value (Val 1)) two_observers
     = Some (None, two_observers\<lparr>state := Val 1,
          updates := updates two_observers @ map (\<lambda>c. (c, Val 1)) (lives (observers two_observers))\<rparr>)"
    using setState_notifies_when_changed[where beh = quiet_table and v = "Val 1", OF n1 d2] c1(1) q
    by blast
  have b: "setState 3 quiet_table (Value (Val 0)) two_observers
     = Some (None, two_observers\<lparr>state := Val 0\<rparr>)"
    using setState_notifies_when_changed[where beh = quiet_table and v = "Val 0", OF n0 d2] c1(2)
    by blast
  have c: "setState 4 (throwing_table 2) (Producer (\<lambda>prev w. (Inr (Val 5), w))) three_watchers
     = Some (Some ''boom'', three_watchers\<lparr>state := Val 5,
          updates := updates three_watchers @ map (\<lambda>c. (c, Val 5)) (lives [Some 1] @ [2])\<rparr>)"
    using setState_notifies_when_changed[where beh = "throwing_table 2" and v = "Val 5"
        and xs = "[Some 1]" and t = 2 and ys = "[Some 3]" and e = "''boom''", OF n5 d3] t5
    by blast
  from a b c show ?thesis by (simp add: two_observers_eq)
qed

text \<open>
  C9 claims that \<^verbatim>\<open>getState\<close> hands out a copy. It returns \<^verbatim>\<open>this.state\<close>: for a
  store whose state is the object at reference 7, the caller gets reference 7, and a
  write through it changes the object the store holds.
\<close>

theorem getState_copy_counterexample:
  "getState (ObservableStore_new (7::addr)) = state (ObservableStore_new (7::addr))
   \<and> heap_write count_heap (getState (ObservableStore_new (7::addr))) 5
         (state (ObservableStore_new (7::addr)))
       \<noteq> count_heap (state (ObservableStore_new (7::addr)))"
  by (simp add: getState_def ObservableStore_new_def heap_write_def count_heap_def)

text \<open>
  C9, amended. \<^verbatim>\<open>getState\<close> returns the stored state value itself, with no copy: for
  an object state the caller receives the reference the store holds, and what the caller
  writes through it is what the store's state then is.
\<close>

theorem getState_returns_stored_reference:
  "getState w = state w \<and> heap_write h (getState w) v (state w) = v"
  by (simp add: getState_def heap_write_def)

section \<open>Sets under add and delete\<close>

lemma set_add_idem: "set_add (set_add xs a) a = set_add xs a"
  by (simp add: set_add_def)

lemma lives_set_add:
  "lives (set_add xs a) = (if a \<in> set (lives xs) then lives xs else lives xs @ [a])"
  by (simp add: set_add_def set_lives lives_append)

lemma lives_set_delete: "lives (set_delete xs a) = filter (\<lambda>y. y \<noteq> a) (lives xs)"
  by (induction xs rule: lives.induct) (simp_all add: set_delete_def)

lemma distinct_lives_set_add: "distinct (lives xs) \<Longrightarrow> distinct (lives (set_add xs a))"
  by (simp add: lives_set_add)

lemma distinct_lives_set_delete: "distinct (lives xs) \<Longrightarrow> distinct (lives (set_delete xs a))"
  by (simp add: lives_set_delete)

lemma tombstoned_fold_delete: "tombstoned s (fold (\<lambda>x s. set_delete s x) xs s)"
proof (induction xs arbitrary: s)
  case Nil
  show ?case by (simp add: tombstoned_refl)
next
  case (Cons x xs)
  show ?case
    using tombstoned_trans[OF tombstoned_set_delete[of s x] Cons[of "set_delete s x"]] by simp
qed

lemma lives_fold_delete:
  "lives (fold (\<lambda>x s. set_delete s x) xs s) = filter (\<lambda>y. y \<notin> set xs) (lives s)"
  by (induction xs arbitrary: s) (simp_all add: lives_set_delete conj_commute)

section \<open>EventEmitter: delivery\<close>

lemma fold_calls:
  "fold (\<lambda>c w. w\<lparr>calls := calls w @ [(c, d)]\<rparr>) cs w
     = w\<lparr>calls := calls w @ map (\<lambda>c. (c, d)) cs\<rparr>"
  by (induction cs arbitrary: w) simp_all

lemma emit_quiet:
  assumes "events w ev = Some a"
    and "\<forall>c\<in>set (lives (sets w a)). \<forall>w'. beh c d w' = (None, w')"
    and "length (sets w a) < fuel"
  shows "emit fuel beh ev d w
           = Some (None, w\<lparr>calls := calls w @ map (\<lambda>c. (c, d)) (lives (sets w a))\<rparr>)"
proof -
  have "forEach fuel (\<lambda>w'. sets w' a) (emit_call beh d) 0 w
          = Some (None, fold (\<lambda>c w. w\<lparr>calls := calls w @ [(c, d)]\<rparr>) (lives (sets w a)) w)"
    using assms(2,3) by (intro forEach_quiet) (simp_all add: emit_call_def)
  then show ?thesis using assms(1) by (simp add: emit_def fold_calls)
qed


lemma fold_off:
  "events w ev = Some a \<Longrightarrow>
   fold (off ev) xs w = w\<lparr>sets := (sets w)(a := fold (\<lambda>x s. set_delete s x) xs (sets w a))\<rparr>"
  by (induction xs arbitrary: w) (simp_all add: off_def)

lemma on_on: "on ev c (on ev c w) = on ev c w"
  by (cases "events w ev") (simp_all add: on_def set_add_idem)

lemma listeners_of_on:
  "listeners_of ev (on ev c w) = set_add (listeners_of ev w) c"
  by (cases "events w ev") (simp_all add: on_def listeners_of_def)

lemma count_list_map_pair:
  "distinct cs \<Longrightarrow> c \<in> set cs \<Longrightarrow> count_list (map (\<lambda>c. (c, d)) cs) (c, d) = 1"
  by (induction cs) (auto simp: count_list_0_iff)

lemma count_list_map_pair_le:
  "distinct cs \<Longrightarrow> count_list (map (\<lambda>c. (c, d)) cs) (c, d) \<le> 1"
  by (induction cs) (auto simp: count_list_0_iff)

lemma events_on:
  "\<exists>a. events (on ev c w) ev = Some a \<and> sets (on ev c w) a = listeners_of ev (on ev c w)
       \<and> calls (on ev c w) = calls w"
  by (cases "events w ev") (simp_all add: on_def listeners_of_def)

text \<open>
  C7. Registering the same callback twice under one topic changes nothing beyond the first
  registration: the emitter is the same, the listener count does not grow, and an
  \<^verbatim>\<open>emit\<close> on the topic calls the callback exactly once. The topic's set holds each
  callback once, as \<^verbatim>\<open>Set\<close> keeps it, and the listeners return without touching the
  emitter.
\<close>

theorem on_same_callback_twice:
  assumes "distinct (lives (listeners_of ev w))"
    and "\<forall>c\<in>set (lives (listeners_of ev (on ev cb w))). \<forall>w'. beh c d w' = (None, w')"
    and "length (listeners_of ev (on ev cb w)) < fuel"
  shows "on ev cb (on ev cb w) = on ev cb w
       \<and> listenerCount ev (on ev cb (on ev cb w)) = listenerCount ev (on ev cb w)
       \<and> (\<exists>new. emit fuel beh ev d (on ev cb (on ev cb w))
                   = Some (None, (on ev cb w)\<lparr>calls := calls w @ new\<rparr>)
                \<and> count_list new (cb, d) = 1)"
proof -
  let ?w1 = "on ev cb w"
  let ?cs = "lives (listeners_of ev ?w1)"
  obtain a where a: "events ?w1 ev = Some a" "sets ?w1 a = listeners_of ev ?w1" "calls ?w1 = calls w"
    using events_on[of ev cb w] by blast
  have "emit fuel beh ev d ?w1 = Some (None, ?w1\<lparr>calls := calls ?w1 @ map (\<lambda>c. (c, d)) ?cs\<rparr>)"
    using emit_quiet[OF a(1), of beh d fuel] assms(2,3) a(2) by simp
  moreover have "distinct ?cs" "cb \<in> set ?cs"
    using assms(1) by (simp_all add: listeners_of_on lives_set_add)
  then have "count_list (map (\<lambda>c. (c, d)) ?cs) (cb, d) = 1" by (rule count_list_map_pair)
  ultimately have "\<exists>new. emit fuel beh ev d ?w1 = Some (None, ?w1\<lparr>calls := calls w @ new\<rparr>)
                \<and> count_list new (cb, d) = 1"
    using a(3) by (intro exI[of _ "map (\<lambda>c. (c, d)) ?cs"]) simp
  then show ?thesis by (simp add: on_on)
qed

theorem on_same_callback_twice_witness:
  "on ''test'' 1 (on ''test'' 1 EventEmitter_new) = on ''test'' 1 (EventEmitter_new :: nat emitter)
   \<and> listenerCount ''test'' (on ''test'' 1 (on ''test'' 1 (EventEmitter_new :: nat emitter)))
       = listenerCount ''test'' (on ''test'' 1 (EventEmitter_new :: nat emitter))
   \<and> (\<exists>new. emit 2 quiet_table ''test'' 0 (on ''test'' 1 (on ''test'' 1 EventEmitter_new))
               = Some (None, (on ''test'' 1 (EventEmitter_new :: nat emitter))
                               \<lparr>calls := calls (EventEmitter_new :: nat emitter) @ new\<rparr>)
            \<and> count_list new (1, 0) = 1)"
  by (rule on_same_callback_twice)
     (simp_all add: listeners_of_def on_def EventEmitter_new_def set_add_def quiet_table_def)

lemma emit_unsubscribing:
  assumes ev: "events w ev = Some a"
    and dist: "distinct (lives (sets w a))"
    and beh: "\<forall>c\<in>set (lives (sets w a)). \<forall>w'. beh c d w' = (None, fold (off ev) (victims c w') w')"
    and fuel: "length (sets w a) < fuel"
  shows "\<exists>w' new. emit fuel beh ev d w = Some (None, w') \<and> calls w' = calls w @ new
          \<and> (\<forall>c. count_list new (c, d) \<le> 1)
          \<and> (\<forall>c\<in>set (lives (sets w a)).
                (\<forall>c' w''. c \<notin> set (victims c' w'')) \<longrightarrow> count_list new (c, d) = 1)
          \<and> (\<forall>c\<in>set (lives (sets w' a)). count_list new (c, d) = 1)
          \<and> tombstoned (sets w a) (sets w' a)"
proof -
  define S where "S = {c \<in> set (lives (sets w a)). \<forall>c' w''. c \<notin> set (victims c' w'')}"
  define I where "I = (\<lambda>w' :: 'a emitter. events w' ev = Some a \<and> (\<forall>c\<in>S. c \<in> set (lives (sets w' a))))"
  have step: "fst (emit_call beh d e w1) = None \<and> I (snd (emit_call beh d e w1))
        \<and> tombstoned (sets w1 a) (sets (snd (emit_call beh d e w1)) a)
        \<and> calls (snd (emit_call beh d e w1)) = calls w1 @ [(e, d)]"
    if "I w1" "e \<in> set (lives (sets w a))" for e w1
  proof -
    let ?w = "w1\<lparr>calls := calls w1 @ [(e, d)]\<rparr>"
    let ?V = "victims e ?w"
    have e1: "events ?w ev = Some a" using that(1) by (simp add: I_def)
    have "emit_call beh d e w1 = (None, fold (off ev) ?V ?w)"
      using beh that(2) by (simp add: emit_call_def)
    then have r: "emit_call beh d e w1
        = (None, ?w\<lparr>sets := (sets ?w)(a := fold (\<lambda>x s. set_delete s x) ?V (sets ?w a))\<rparr>)"
      using fold_off[OF e1, of ?V] by simp
    have "c \<in> set (lives (fold (\<lambda>x s. set_delete s x) ?V (sets w1 a)))" if "c \<in> S" for c
    proof -
      have "c \<notin> set ?V" "c \<in> set (lives (sets w1 a))"
        using that \<open>I w1\<close> by (simp_all add: S_def I_def)
      then show ?thesis by (simp add: lives_fold_delete)
    qed
    then show ?thesis using r e1 tombstoned_fold_delete[of "sets w1 a" ?V] by (simp add: I_def)
  qed
  have "\<exists>vs w'. forEach fuel (\<lambda>w'. sets w' a) (emit_call beh d) 0 w = Some (None, w') \<and> I w'
           \<and> calls w' = calls w @ concat (map (\<lambda>c. [(c, d)]) vs) \<and> distinct vs
           \<and> set vs \<subseteq> set (lives (drop 0 (sets w a)))
           \<and> set (lives (drop 0 (sets w' a))) \<subseteq> set vs
           \<and> tombstoned (sets w a) (sets w' a)"
  proof (rule forEach_tombstoning[where E = "set (lives (sets w a))" and I = I])
    show "I w" using ev by (simp add: I_def S_def)
    show "length (sets w a) - 0 < fuel" using fuel by simp
  qed (use step dist in simp_all)
  then obtain vs w' where r: "forEach fuel (\<lambda>w'. sets w' a) (emit_call beh d) 0 w = Some (None, w')"
    "I w'" "calls w' = calls w @ concat (map (\<lambda>c. [(c, d)]) vs)" "distinct vs"
    "set (lives (sets w' a)) \<subseteq> set vs" "tombstoned (sets w a) (sets w' a)"
    by auto
  let ?new = "map (\<lambda>c. (c, d)) vs"
  have c: "concat (map (\<lambda>c. [(c, d)]) vs) = ?new" by (induction vs) simp_all
  have "emit fuel beh ev d w = Some (None, w')" using r(1) ev by (simp add: emit_def)
  moreover have "calls w' = calls w @ ?new" using r(3) c by simp
  moreover have "\<forall>c. count_list ?new (c, d) \<le> 1" by (intro allI count_list_map_pair_le r(4))
  moreover have "\<forall>c\<in>set (lives (sets w' a)). count_list ?new (c, d) = 1"
  proof
    fix c assume "c \<in> set (lives (sets w' a))"
    then have "c \<in> set vs" using r(5) by blast
    then show "count_list ?new (c, d) = 1" using r(4) by (rule count_list_map_pair[rotated])
  qed
  moreover have "\<forall>c\<in>set (lives (sets w a)).
        (\<forall>c' w''. c \<notin> set (victims c' w'')) \<longrightarrow> count_list ?new (c, d) = 1"
  proof (intro ballI impI)
    fix c assume "c \<in> set (lives (sets w a))" "\<forall>c' w''. c \<notin> set (victims c' w'')"
    then have "c \<in> S" by (simp add: S_def)
    then have "c \<in> set vs" using r(2,5) by (auto simp: I_def)
    then show "count_list ?new (c, d) = 1" using r(4) by (rule count_list_map_pair[rotated])
  qed
  ultimately show ?thesis using r(6) by blast
qed

lemma fold_unsubscribe:
  "fold unsubscribe xs w = w\<lparr>observers := fold (\<lambda>x s. set_delete s x) xs (observers w)\<rparr>"
  by (induction xs arbitrary: w) (simp_all add: unsubscribe_def)

lemma notify_unsubscribing:
  assumes dist: "distinct (lives (observers w))"
    and beh: "\<forall>c\<in>set (lives (observers w)). \<forall>w'.
                beh c v w' = (None, fold unsubscribe (victims c w') w')"
    and fuel: "length (observers w) < fuel"
  shows "\<exists>w' new. notify fuel beh v w = Some (None, w') \<and> updates w' = updates w @ new
          \<and> (\<forall>c. count_list new (c, v) \<le> 1)
          \<and> (\<forall>c\<in>set (lives (observers w)).
                (\<forall>c' w''. c \<notin> set (victims c' w'')) \<longrightarrow> count_list new (c, v) = 1)
          \<and> (\<forall>c\<in>set (lives (observers w')). count_list new (c, v) = 1)
          \<and> tombstoned (observers w) (observers w')"
proof -
  define S where "S = {c \<in> set (lives (observers w)). \<forall>c' w''. c \<notin> set (victims c' w'')}"
  define I where "I = (\<lambda>w' :: 'a store. \<forall>c\<in>S. c \<in> set (lives (observers w')))"
  have step: "fst (update_call beh v e w1) = None \<and> I (snd (update_call beh v e w1))
        \<and> tombstoned (observers w1) (observers (snd (update_call beh v e w1)))
        \<and> updates (snd (update_call beh v e w1)) = updates w1 @ [(e, v)]"
    if "I w1" "e \<in> set (lives (observers w))" for e w1
  proof -
    let ?w = "w1\<lparr>updates := updates w1 @ [(e, v)]\<rparr>"
    let ?V = "victims e ?w"
    have r: "update_call beh v e w1
        = (None, ?w\<lparr>observers := fold (\<lambda>x s. set_delete s x) ?V (observers ?w)\<rparr>)"
      using beh that(2) fold_unsubscribe[of ?V ?w] by (simp add: update_call_def)
    have "c \<in> set (lives (fold (\<lambda>x s. set_delete s x) ?V (observers w1)))" if "c \<in> S" for c
    proof -
      have "c \<notin> set ?V" "c \<in> set (lives (observers w1))"
        using that \<open>I w1\<close> by (simp_all add: S_def I_def)
      then show ?thesis by (simp add: lives_fold_delete)
    qed
    then show ?thesis using r tombstoned_fold_delete[of "observers w1" ?V] by (simp add: I_def)
  qed
  have "\<exists>vs w'. forEach fuel observers (update_call beh v) 0 w = Some (None, w') \<and> I w'
           \<and> updates w' = updates w @ concat (map (\<lambda>c. [(c, v)]) vs) \<and> distinct vs
           \<and> set vs \<subseteq> set (lives (drop 0 (observers w)))
           \<and> set (lives (drop 0 (observers w'))) \<subseteq> set vs
           \<and> tombstoned (observers w) (observers w')"
  proof (rule forEach_tombstoning[where E = "set (lives (observers w))" and I = I])
    show "I w" by (simp add: I_def S_def)
    show "length (observers w) - 0 < fuel" using fuel by simp
  qed (use step dist in simp_all)
  then obtain vs w' where r: "forEach fuel observers (update_call beh v) 0 w = Some (None, w')"
    "I w'" "updates w' = updates w @ concat (map (\<lambda>c. [(c, v)]) vs)" "distinct vs"
    "set (lives (observers w')) \<subseteq> set vs" "tombstoned (observers w) (observers w')"
    by auto
  let ?new = "map (\<lambda>c. (c, v)) vs"
  have c: "concat (map (\<lambda>c. [(c, v)]) vs) = ?new" by (induction vs) simp_all
  have "notify fuel beh v w = Some (None, w')" using r(1) by (simp add: notify_def)
  moreover have "updates w' = updates w @ ?new" using r(3) c by simp
  moreover have "\<forall>c. count_list ?new (c, v) \<le> 1" by (intro allI count_list_map_pair_le r(4))
  moreover have "\<forall>c\<in>set (lives (observers w')). count_list ?new (c, v) = 1"
  proof
    fix c assume "c \<in> set (lives (observers w'))"
    then have "c \<in> set vs" using r(5) by blast
    then show "count_list ?new (c, v) = 1" using r(4) by (rule count_list_map_pair[rotated])
  qed
  moreover have "\<forall>c\<in>set (lives (observers w)).
        (\<forall>c' w''. c \<notin> set (victims c' w'')) \<longrightarrow> count_list ?new (c, v) = 1"
  proof (intro ballI impI)
    fix c assume "c \<in> set (lives (observers w))" "\<forall>c' w''. c \<notin> set (victims c' w'')"
    then have "c \<in> S" by (simp add: S_def)
    then have "c \<in> set vs" using r(2,5) by (auto simp: I_def)
    then show "count_list ?new (c, v) = 1" using r(4) by (rule count_list_map_pair[rotated])
  qed
  ultimately show ?thesis using r(6) by blast
qed

text \<open>
  C2. During an \<^verbatim>\<open>emit\<close> or a \<^verbatim>\<open>notify\<close> pass the callbacks unsubscribe subscribers
  of the same topic (each callback \<open>c\<close> those in \<open>victims c\<close>, for the store
  \<open>leavers c\<close>). The call returns without an exception; nobody is called twice; every
  subscriber registered at the start that no callback unsubscribes is called exactly once,
  and so is every subscriber still registered at the end.
\<close>

theorem unsubscribe_during_delivery:
  assumes "events w ev = Some a"
    and "distinct (lives (sets w a))"
    and "\<forall>c\<in>set (lives (sets w a)). \<forall>w'. beh c d w' = (None, fold (off ev) (victims c w') w')"
    and "length (sets w a) < fuel"
    and "distinct (lives (observers s))"
    and "\<forall>c\<in>set (lives (observers s)). \<forall>s'.
           obs c v s' = (None, fold unsubscribe (leavers c s') s')"
    and "length (observers s) < fuel'"
  shows "(\<exists>w' new. emit fuel beh ev d w = Some (None, w') \<and> calls w' = calls w @ new
          \<and> (\<forall>c. count_list new (c, d) \<le> 1)
          \<and> (\<forall>c\<in>set (lives (sets w a)).
                (\<forall>c' w''. c \<notin> set (victims c' w'')) \<longrightarrow> count_list new (c, d) = 1)
          \<and> (\<forall>c\<in>set (lives (sets w' a)). count_list new (c, d) = 1)
          \<and> tombstoned (sets w a) (sets w' a))
       \<and> (\<exists>s' new. notify fuel' obs v s = Some (None, s') \<and> updates s' = updates s @ new
          \<and> (\<forall>c. count_list new (c, v) \<le> 1)
          \<and> (\<forall>c\<in>set (lives (observers s)).
                (\<forall>c' s''. c \<notin> set (leavers c' s'')) \<longrightarrow> count_list new (c, v) = 1)
          \<and> (\<forall>c\<in>set (lives (observers s')). count_list new (c, v) = 1)
          \<and> tombstoned (observers s) (observers s'))"
  using emit_unsubscribing[where beh = beh and d = d and victims = victims, OF assms(1-4)]
    notify_unsubscribing[where beh = obs and v = v and victims = leavers, OF assms(5-7)]
  by (rule conjI)

lemma three_listeners_eq:
  "three_listeners = \<lparr>events = [''news'' \<mapsto> 0], sets = (\<lambda>_. [])(0 := [Some 1, Some 2, Some 3]),
     fresh = 1, calls = []\<rparr>"
  by (simp add: three_listeners_def on_def EventEmitter_new_def set_add_def)

theorem unsubscribe_during_delivery_witness:
  "(\<exists>w' new. emit 4 (off_table ''news'' 1 3) ''news'' 7 three_listeners = Some (None, w')
        \<and> calls w' = calls three_listeners @ new
        \<and> count_list new (1, 7) = 1 \<and> count_list new (2, 7) = 1 \<and> count_list new (3, 7) \<le> 1)
   \<and> (\<exists>s' new. notify 4 (unsubscribe_table 1 3) 7 three_observers = Some (None, s')
        \<and> updates s' = updates three_observers @ new
        \<and> count_list new (1, 7) = 1 \<and> count_list new (2, 7) = 1 \<and> count_list new (3, 7) \<le> 1)"
proof -
  have e1: "events three_listeners ''news'' = Some 0" by (simp add: three_listeners_eq)
  have e2: "distinct (lives (sets three_listeners 0))" by (simp add: three_listeners_eq)
  have e3: "\<forall>c\<in>set (lives (sets three_listeners 0)). \<forall>w'.
       off_table ''news'' 1 3 c (7::nat) w' = (None, fold (off ''news'') ((\<lambda>c w. remover 1 3 c) c w') w')"
    by (simp add: off_table_def)
  have e4: "length (sets three_listeners 0) < 4" by (simp add: three_listeners_eq)
  have s1: "distinct (lives (observers three_observers))" by (simp add: three_observers_def)
  have s2: "\<forall>c\<in>set (lives (observers three_observers)). \<forall>s'.
       unsubscribe_table 1 3 c (7::int) s' = (None, fold unsubscribe ((\<lambda>c w. remover 1 3 c) c s') s')"
    by (simp add: unsubscribe_table_def)
  have s3: "length (observers three_observers) < 4" by (simp add: three_observers_def)
  have nv: "(1::nat) \<notin> set (remover 1 3 c')" "(2::nat) \<notin> set (remover 1 3 c')" for c'
    by (simp_all add: remover_def)
  have m: "1 \<in> set (lives (sets three_listeners 0))" "2 \<in> set (lives (sets three_listeners 0))"
    "1 \<in> set (lives (observers three_observers))" "2 \<in> set (lives (observers three_observers))"
    by (simp_all add: three_listeners_eq three_observers_def)
  note t = unsubscribe_during_delivery[where victims = "\<lambda>c w. remover 1 3 c"
      and leavers = "\<lambda>c w. remover 1 3 c" and beh = "off_table ''news'' 1 3" and d = 7
      and obs = "unsubscribe_table 1 3" and v = 7, OF e1 e2 e3 e4 s1 s2 s3]
  from t obtain w' new where a: "emit 4 (off_table ''news'' 1 3) ''news'' 7 three_listeners = Some (None, w')"
    "calls w' = calls three_listeners @ new" "\<forall>c. count_list new (c, 7) \<le> 1"
    "\<forall>c\<in>set (lives (sets three_listeners 0)).
       (\<forall>c' (w''::nat emitter). c \<notin> set (remover 1 3 c')) \<longrightarrow> count_list new (c, 7) = 1"
    by (elim conjE exE) 
  from t obtain s' new' where b: "notify 4 (unsubscribe_table 1 3) 7 three_observers = Some (None, s')"
    "updates s' = updates three_observers @ new'" "\<forall>c. count_list new' (c, 7) \<le> 1"
    "\<forall>c\<in>set (lives (observers three_observers)).
       (\<forall>c' (w''::int store). c \<notin> set (remover 1 3 c')) \<longrightarrow> count_list new' (c, 7) = 1"
    by (elim conjE exE) 
  have "count_list new (1, 7) = 1" "count_list new (2, 7) = 1" "count_list new (3, 7) \<le> 1"
    using a(3) a(4)[rule_format, OF m(1) nv(1)] a(4)[rule_format, OF m(2) nv(2)] by simp_all
  moreover have "count_list new' (1, 7) = 1" "count_list new' (2, 7) = 1" "count_list new' (3, 7) \<le> 1"
    using b(3) b(4)[rule_format, OF m(3) nv(1)] b(4)[rule_format, OF m(4) nv(2)] by simp_all
  ultimately show ?thesis using a(1,2) b(1,2) by blast
qed

section \<open>NewsPublisher: delivery\<close>

lemma forEach_preserves:
  assumes "\<And>e w. P w \<Longrightarrow> P (snd (f e w))"
    and "P w" and "forEach fuel ents f i w = Some (r, w')"
  shows "P w'"
  using assms(2,3)
proof (induction fuel arbitrary: i w)
  case 0
  then show ?case by simp
next
  case (Suc n)
  show ?case
  proof (cases "length (ents w) \<le> i")
    case True
    then show ?thesis using Suc.prems by simp
  next
    case False
    show ?thesis
    proof (cases "ents w ! i")
      case None
      then show ?thesis using Suc.IH[of w "Suc i"] Suc.prems False by simp
    next
      case (Some e)
      obtain x w1 where fe: "f e w = (x, w1)" by (cases "f e w")
      have p1: "P w1" using assms(1)[OF Suc.prems(1), of e] fe by simp
      show ?thesis
      proof (cases x)
        case None
        then show ?thesis using Suc.IH[OF p1, of "Suc i"] Suc.prems(2) False Some fe by simp
      next
        case (Some y)
        then show ?thesis using p1 Suc.prems(2) False \<open>ents w ! i = Some e\<close> fe by simp
      qed
    qed
  qed
qed

lemma fold_deliveries:
  "fold (\<lambda>en w. if interested (snd en) cat
                  then w\<lparr>deliveries := deliveries w @ [(snd en, art)]\<rparr> else w) es w
     = w\<lparr>deliveries := deliveries w
            @ map (\<lambda>en. (snd en, art)) (filter (\<lambda>en. interested (snd en) cat) es)\<rparr>"
  by (induction es arbitrary: w) simp_all

lemma publish_quiet:
  assumes "\<forall>en\<in>set (lives (subscribers w)). \<forall>x w'. beh (onNews (snd en)) x w' = (None, w')"
    and "length (subscribers w) < fuel"
  shows "publish fuel beh now a w
           = Some (Inr (enrich a (articleIdCounter w + 1) now),
                   w\<lparr>articleIdCounter := articleIdCounter w + 1,
                     articles := articles w @ [enrich a (articleIdCounter w + 1) now],
                     deliveries := deliveries w
                       @ map (\<lambda>en. (snd en, enrich a (articleIdCounter w + 1) now))
                           (filter (\<lambda>en. interested (snd en) (category a))
                              (lives (subscribers w)))\<rparr>)"
proof -
  let ?art = "enrich a (articleIdCounter w + 1) now"
  let ?w1 = "w\<lparr>articleIdCounter := articleIdCounter w + 1, articles := articles w @ [?art]\<rparr>"
  let ?lg = "\<lambda>en w. if interested (snd en) (category a)
                  then w\<lparr>deliveries := deliveries w @ [(snd en, ?art)]\<rparr> else w"
  have "forEach fuel subscribers (news_call beh (category a) ?art) 0 ?w1
          = Some (None, fold ?lg (lives (subscribers w)) ?w1)"
    using assms by (intro forEach_quiet) (simp_all add: news_call_def)
  then show ?thesis by (simp add: publish_def fold_deliveries Let_def)
qed


lemma readers_eq:
  "readers = \<lparr>subscribers = [Some (''a'', tech_reader), Some (''b'', all_reader)], articles = [],
      articleIdCounter = 0, deliveries = [], copies = (\<lambda>_. []), copy_count = 0\<rparr>"
  by (simp add: readers_def news_subscribe_def NewsPublisher_new_def map_set_def
      tech_reader_def all_reader_def)





section \<open>NewsPublisher: subscribing under a registered id\<close>

lemma lives_map_replace:
  "lives (map (\<lambda>s. case s of None \<Rightarrow> None
                    | Some (k', v') \<Rightarrow> if k' = k then Some (k, v) else Some (k', v')) xs)
     = map (\<lambda>en. if fst en = k then (k, v) else en) (lives xs)"
  by (induction xs rule: lives.induct) (auto split: prod.splits)

lemma lives_map_set_present:
  "k \<in> fst ` set (lives xs) \<Longrightarrow>
     lives (map_set xs k v) = map (\<lambda>en. if fst en = k then (k, v) else en) (lives xs)"
  by (simp add: map_set_def lives_map_replace)

text \<open>
  C10. A \<^verbatim>\<open>subscribe\<close> with the id of a registered subscriber replaces the registration:
  the subscriber count is unchanged, and a later \<^verbatim>\<open>publish\<close> (in any state \<open>w2\<close> of the
  publisher with these registrations) calls the new subscriber when its categories match and
  never the replaced one. Every entry of the map is keyed by its subscriber's id, as
  \<^verbatim>\<open>subscribe\<close> stores it; the callbacks return without touching the publisher, so the
  registrations are the same after the call.
\<close>

theorem subscribe_same_id_replaces:
  assumes keyed: "\<forall>en\<in>set (lives (subscribers w)). sub_id (snd en) = fst en"
    and reg: "(sub_id s', old) \<in> set (lives (subscribers w))"
    and diff: "old \<noteq> s'"
    and later: "subscribers w2 = subscribers (news_subscribe s' w)"
    and quiet: "\<forall>en\<in>set (lives (subscribers w2)). \<forall>x w'. beh (onNews (snd en)) x w' = (None, w')"
    and fuel: "length (subscribers w2) < fuel"
  shows "getSubscriberCount (news_subscribe s' w) = getSubscriberCount w
       \<and> (\<exists>art w3 new. publish fuel beh now a w2 = Some (Inr art, w3)
             \<and> deliveries w3 = deliveries w2 @ new
             \<and> (\<forall>x. (old, x) \<notin> set new)
             \<and> ((s', art) \<in> set new) = interested s' (category a)
             \<and> subscribers w3 = subscribers w2)"
proof -
  let ?k = "sub_id s'"
  let ?L = "lives (subscribers w)"
  let ?L2 = "map (\<lambda>en. if fst en = ?k then (?k, s') else en) ?L"
  have k: "?k \<in> fst ` set ?L" using reg by force
  have l2: "lives (subscribers w2) = ?L2"
    using later lives_map_set_present[OF k, of s'] by (simp add: news_subscribe_def)
  have count: "getSubscriberCount (news_subscribe s' w) = getSubscriberCount w"
    using lives_map_set_present[OF k, of s']
    by (simp add: getSubscriberCount_def set_size_def news_subscribe_def)
  let ?art = "enrich a (articleIdCounter w2 + 1) now"
  let ?new = "map (\<lambda>en. (snd en, ?art))
                (filter (\<lambda>en. interested (snd en) (category a)) (lives (subscribers w2)))"
  let ?w3 = "w2\<lparr>articleIdCounter := articleIdCounter w2 + 1, articles := articles w2 @ [?art],
               deliveries := deliveries w2 @ ?new\<rparr>"
  have run: "publish fuel beh now a w2 = Some (Inr ?art, ?w3)" using quiet fuel by (rule publish_quiet)
  have no_old: "old \<notin> snd ` set ?L2"
  proof
    assume "old \<in> snd ` set ?L2"
    then obtain en where en: "en \<in> set ?L" "old = snd (if fst en = ?k then (?k, s') else en)"
      by auto
    show False
    proof (cases "fst en = ?k")
      case True
      then show ?thesis using en(2) diff by simp
    next
      case False
      then have "sub_id old = fst en" using en keyed by auto
      moreover have "sub_id old = ?k" using reg keyed by force
      ultimately show ?thesis using False by simp
    qed
  qed
  have a: "\<forall>x. (old, x) \<notin> set ?new"
  proof (intro allI notI)
    fix x assume "(old, x) \<in> set ?new"
    then have "old \<in> snd ` set (lives (subscribers w2))" by force
    then show False using no_old l2 by simp
  qed
  have b: "((s', ?art) \<in> set ?new) = interested s' (category a)"
  proof
    assume "(s', ?art) \<in> set ?new"
    then show "interested s' (category a)" by auto
  next
    assume i: "interested s' (category a)"
    have "(?k, s') \<in> set ?L2" using reg by force
    then have "(?k, s') \<in> set (lives (subscribers w2))" using l2 by simp
    then show "(s', ?art) \<in> set ?new" using i by force
  qed
  have "\<exists>art w3 new. publish fuel beh now a w2 = Some (Inr art, w3)
             \<and> deliveries w3 = deliveries w2 @ new
             \<and> (\<forall>x. (old, x) \<notin> set new)
             \<and> ((s', art) \<in> set new) = interested s' (category a)
             \<and> subscribers w3 = subscribers w2"
    using run a b by (intro exI[of _ ?art] exI[of _ ?w3] exI[of _ ?new]) simp
  then show ?thesis using count by simp
qed

theorem subscribe_same_id_replaces_witness:
  "getSubscriberCount (news_subscribe sports_reader readers) = getSubscriberCount readers
   \<and> (\<exists>art w3 new. publish 3 quiet_table 0 sports_draft (news_subscribe sports_reader readers)
                      = Some (Inr art, w3)
         \<and> deliveries w3 = deliveries (news_subscribe sports_reader readers) @ new
         \<and> (tech_reader, art) \<notin> set new \<and> (sports_reader, art) \<in> set new)"
proof -
  let ?w2 = "news_subscribe sports_reader readers"
  have keyed: "\<forall>en\<in>set (lives (subscribers readers)). sub_id (snd en) = fst en"
    by (simp add: readers_eq tech_reader_def all_reader_def)
  have reg: "(sub_id sports_reader, tech_reader) \<in> set (lives (subscribers readers))"
    by (simp add: readers_eq sports_reader_def)
  have diff: "tech_reader \<noteq> sports_reader" by (simp add: tech_reader_def sports_reader_def)
  have quiet: "\<forall>en\<in>set (lives (subscribers ?w2)). \<forall>x w'.
                 quiet_table (onNews (snd en)) (x::NewsArticle) (w'::publisher) = (None, w')"
    by (simp add: quiet_table_def)
  have fuel: "length (subscribers ?w2) < 3"
    by (simp add: readers_eq news_subscribe_def map_set_def sports_reader_def)
  have i: "interested sports_reader (category sports_draft)"
    by (simp add: interested_def sports_reader_def sports_draft_def)
  from subscribe_same_id_replaces[where beh = quiet_table and ?w2.0 = ?w2,
      OF keyed reg diff refl quiet fuel, of 0 sports_draft] i
  show ?thesis by blast
qed

section \<open>NewsPublisher: the log\<close>

lemma publish_log:
  assumes frame: "\<forall>c x w'. articles (snd (beh c x w')) = articles w'
                    \<and> articleIdCounter (snd (beh c x w')) = articleIdCounter w'"
    and run: "publish fuel beh now a w = Some (r, w')"
  shows "articles w' = articles w @ [enrich a (articleIdCounter w + 1) now]
       \<and> articleIdCounter w' = articleIdCounter w + 1"
proof -
  let ?art = "enrich a (articleIdCounter w + 1) now"
  let ?w1 = "w\<lparr>articleIdCounter := articleIdCounter w + 1, articles := articles w @ [?art]\<rparr>"
  let ?P = "\<lambda>v :: publisher. articles v = articles ?w1 \<and> articleIdCounter v = articleIdCounter ?w1"
  obtain x where fe: "forEach fuel subscribers (news_call beh (category a) ?art) 0 ?w1 = Some (x, w')"
    using run by (auto simp: publish_def Let_def split: option.splits prod.splits)
  have "?P w'"
  proof (rule forEach_preserves[where P = ?P, OF _ _ fe])
    fix e v assume "?P v"
    then show "?P (snd (news_call beh (category a) ?art e v))"
      using frame by (simp add: news_call_def Let_def)
  qed simp
  then show ?thesis by simp
qed

lemma publish_returns:
  assumes "\<forall>c x w'. subscribers (snd (beh c x w')) = subscribers w'"
    and "length (subscribers w) < fuel"
  shows "\<exists>r w'. publish fuel beh now a w = Some (r, w') \<and> subscribers w' = subscribers w"
proof -
  let ?art = "enrich a (articleIdCounter w + 1) now"
  let ?w1 = "w\<lparr>articleIdCounter := articleIdCounter w + 1, articles := articles w @ [?art]\<rparr>"
  let ?f = "news_call beh (category a) ?art"
  have fr: "subscribers (snd (?f e v)) = subscribers v" for e v
    using assms(1) by (simp add: news_call_def Let_def)
  have "forEach fuel subscribers ?f 0 ?w1 = Some (deliver ?f (lives (subscribers w)) ?w1)"
    using assms(2) by (intro forEach_deliver) (simp_all add: fr)
  then obtain x w' where fe: "forEach fuel subscribers ?f 0 ?w1 = Some (x, w')"
    by (cases "deliver ?f (lives (subscribers w)) ?w1") simp
  have "subscribers w' = subscribers ?w1"
    by (rule forEach_preserves[where P = "\<lambda>v :: publisher. subscribers v = subscribers ?w1", OF _ _ fe])
       (simp_all add: fr)
  then show ?thesis using fe by (cases x) (simp_all add: publish_def Let_def)
qed

lemma publish_all_log:
  assumes "\<forall>c x w'. articles (snd (beh c x w')) = articles w'
                    \<and> articleIdCounter (snd (beh c x w')) = articleIdCounter w'"
    and "publish_all fuel beh ds w = Some w'"
  shows "articles w' = articles w @ stamp (articleIdCounter w) ds"
  using assms(2)
proof (induction ds arbitrary: w)
  case Nil
  then show ?case by simp
next
  case (Cons d ds)
  obtain now a where d: "d = (now, a)" by (cases d)
  obtain r w1 where p: "publish fuel beh now a w = Some (r, w1)" "publish_all fuel beh ds w1 = Some w'"
    using Cons.prems d by (auto split: option.splits)
  show ?case using publish_log[OF assms(1) p(1)] Cons.IH[OF p(2)] d by simp
qed

lemma publish_all_counter:
  assumes "\<forall>c x w'. articles (snd (beh c x w')) = articles w'
                    \<and> articleIdCounter (snd (beh c x w')) = articleIdCounter w'"
    and "publish_all fuel beh ds w = Some w'"
  shows "articleIdCounter w' = articleIdCounter w + int (length ds)"
  using assms(2)
proof (induction ds arbitrary: w)
  case Nil
  then show ?case by simp
next
  case (Cons d ds)
  obtain now a where d: "d = (now, a)" by (cases d)
  obtain r w1 where p: "publish fuel beh now a w = Some (r, w1)" "publish_all fuel beh ds w1 = Some w'"
    using Cons.prems d by (auto split: option.splits)
  show ?case using publish_log[OF assms(1) p(1)] Cons.IH[OF p(2)] by simp
qed

lemma publish_all_returns:
  assumes "\<forall>c x w'. subscribers (snd (beh c x w')) = subscribers w'"
    and "length (subscribers w) < fuel"
  shows "\<exists>w'. publish_all fuel beh ds w = Some w'"
  using assms(2)
proof (induction ds arbitrary: w)
  case Nil
  then show ?case by simp
next
  case (Cons d ds)
  obtain now a where d: "d = (now, a)" by (cases d)
  obtain r w1 where p: "publish fuel beh now a w = Some (r, w1)" "subscribers w1 = subscribers w"
    using publish_returns[OF assms(1) Cons.prems, of now a] by blast
  show ?case using Cons.IH[of w1] p Cons.prems d by simp
qed

lemma article_id_stamp: "map article_id (stamp n ds) = [n + 1..n + int (length ds)]"
proof (induction ds arbitrary: n)
  case Nil
  then show ?case by simp
next
  case (Cons d ds)
  obtain now a where d: "d = (now, a)" by (cases d)
  have "[n + 1..n + int (length (d # ds))] = (n + 1) # [n + 1 + 1..n + 1 + int (length ds)]"
    by (simp add: upto_rec1 algebra_simps)
  then show ?case using Cons.IH[of "n + 1"] d by (simp add: enrich_def)
qed

lemma publish_copies:
  assumes "\<forall>c x v. copies (snd (beh c x v)) = copies v"
    and "publish fuel beh now a w = Some (r, w')"
  shows "copies w' = copies w"
proof -
  let ?art = "enrich a (articleIdCounter w + 1) now"
  let ?w1 = "w\<lparr>articleIdCounter := articleIdCounter w + 1, articles := articles w @ [?art]\<rparr>"
  let ?P = "\<lambda>v :: publisher. copies v = copies ?w1"
  obtain x where fe: "forEach fuel subscribers (news_call beh (category a) ?art) 0 ?w1 = Some (x, w')"
    using assms(2) by (auto simp: publish_def Let_def split: option.splits prod.splits)
  have "?P w'"
  proof (rule forEach_preserves[where P = ?P, OF _ _ fe])
    fix e v assume "?P v"
    then show "?P (snd (news_call beh (category a) ?art e v))"
      using assms(1) by (simp add: news_call_def Let_def)
  qed simp
  then show ?thesis by simp
qed

text \<open>
  C5. A publisher that is new (empty log, counter 0, any subscribers) makes the publish
  calls \<open>ds\<close> one after another. When the calls have returned or thrown, \<^verbatim>\<open>getArticles\<close>
  returns an array that holds the published events in the order of publication, and their
  identifiers are 1, 2, ... up to their number: consecutive, increasing, none used twice,
  also after calls whose subscribers threw. The array is a snapshot copy: it is a new
  array and not the log's, the call leaves the log as it is, a change of the returned array
  in place leaves the log as it is, and a later \<^verbatim>\<open>publish\<close> appends to the log and leaves
  the returned array as it is. The callbacks may throw, subscribe and unsubscribe; they do
  not publish, and in the later \<^verbatim>\<open>publish\<close> they do not write to the arrays handed out.
  The copy is of the array; the events in it are the ones in the log. With callbacks that
  leave the registrations alone every call ends, given fuel for one pass over the
  subscribers.
\<close>

theorem published_ids_consecutive:
  assumes "articles w = []" and "articleIdCounter w = 0"
    and "\<forall>c x w'. articles (snd (beh c x w')) = articles w'
                    \<and> articleIdCounter (snd (beh c x w')) = articleIdCounter w'"
  shows "(\<forall>w' r w1. publish_all fuel beh ds w = Some w' \<and> getArticles w' = (r, w1) \<longrightarrow>
            read_array r w1 = stamp 0 ds
            \<and> map article_id (read_array r w1) = [1..int (length ds)]
            \<and> r \<noteq> LogArray
            \<and> read_array LogArray w1 = read_array LogArray w'
            \<and> (\<forall>f. read_array LogArray (array_update r f w1) = read_array LogArray w1)
            \<and> (\<forall>fuel' now a res w2.
                  (\<forall>c x v. copies (snd (beh c x v)) = copies v)
                  \<and> publish fuel' beh now a w1 = Some (res, w2) \<longrightarrow>
                  read_array r w2 = stamp 0 ds
                  \<and> read_array LogArray w2
                      = stamp 0 ds @ [enrich a (int (length ds) + 1) now]))
       \<and> ((\<forall>c x w'. subscribers (snd (beh c x w')) = subscribers w')
            \<and> length (subscribers w) < fuel
            \<longrightarrow> (\<exists>w'. publish_all fuel beh ds w = Some w'))"
proof -
  have first: "read_array r w1 = stamp 0 ds
            \<and> map article_id (read_array r w1) = [1..int (length ds)]
            \<and> r \<noteq> LogArray
            \<and> read_array LogArray w1 = read_array LogArray w'
            \<and> (\<forall>f. read_array LogArray (array_update r f w1) = read_array LogArray w1)
            \<and> (\<forall>fuel' now a res w2.
                  (\<forall>c x v. copies (snd (beh c x v)) = copies v)
                  \<and> publish fuel' beh now a w1 = Some (res, w2) \<longrightarrow>
                  read_array r w2 = stamp 0 ds
                  \<and> read_array LogArray w2
                      = stamp 0 ds @ [enrich a (int (length ds) + 1) now])"
    if run: "publish_all fuel beh ds w = Some w'" and g: "getArticles w' = (r, w1)" for w' r w1
  proof -
    have log: "articles w' = stamp 0 ds"
      using publish_all_log[OF assms(3) run] assms(1,2) by simp
    have r: "r = CopyArray (copy_count w')"
      and w1: "w1 = w'\<lparr>copies := (copies w')(copy_count w' := articles w'),
                        copy_count := Suc (copy_count w')\<rparr>"
      using g by (simp_all add: getArticles_def)
    have snap: "read_array r w1 = stamp 0 ds" using r w1 log by (simp add: read_array_def)
    have ids: "map article_id (read_array r w1) = [1..int (length ds)]"
      using snap article_id_stamp[of 0 ds] by simp
    have fresh: "r \<noteq> LogArray" using r by simp
    have same: "read_array LogArray w1 = read_array LogArray w'"
      using w1 by (simp add: read_array_def)
    have own: "read_array LogArray (array_update r f w1) = read_array LogArray w1" for f
      using r by (simp add: read_array_def array_update_def)
    have cnt: "articleIdCounter w1 = int (length ds)"
      using publish_all_counter[OF assms(3) run] assms(2) w1 by simp
    have later: "read_array r w2 = stamp 0 ds
        \<and> read_array LogArray w2 = stamp 0 ds @ [enrich a (int (length ds) + 1) now]"
      if "(\<forall>c x v. copies (snd (beh c x v)) = copies v)
          \<and> publish fuel' beh now a w1 = Some (res, w2)" for fuel' now a res w2
    proof -
      have c: "copies w2 = copies w1"
        using publish_copies[of beh fuel' now a w1 res w2] that by blast
      have l: "articles w2 = articles w1 @ [enrich a (articleIdCounter w1 + 1) now]"
        using publish_log[OF assms(3), of fuel' now a w1 res w2] that by blast
      have "articles w1 = stamp 0 ds" using w1 log by simp
      then show ?thesis using c l snap r cnt by (simp add: read_array_def)
    qed
    show ?thesis
    proof (intro conjI allI impI)
      show "read_array r w1 = stamp 0 ds" by (rule snap)
      show "map article_id (read_array r w1) = [1..int (length ds)]" by (rule ids)
      show "r \<noteq> LogArray" by (rule fresh)
      show "read_array LogArray w1 = read_array LogArray w'" by (rule same)
      show "read_array LogArray (array_update r f w1) = read_array LogArray w1" for f by (rule own)
    next
      fix fuel' now a res w2
      assume h: "(\<forall>c x v. copies (snd (beh c x v)) = copies v)
          \<and> publish fuel' beh now a w1 = Some (res, w2)"
      show "read_array r w2 = stamp 0 ds" using later[OF h] by simp
      show "read_array LogArray w2 = stamp 0 ds @ [enrich a (int (length ds) + 1) now]"
        using later[OF h] by simp
    qed
  qed
  have second: "\<exists>w'. publish_all fuel beh ds w = Some w'"
    if "(\<forall>c x w'. subscribers (snd (beh c x w')) = subscribers w') \<and> length (subscribers w) < fuel"
    using publish_all_returns[of beh w fuel ds] that by blast
  show ?thesis
  proof (rule conjI)
    show "\<forall>w' r w1. publish_all fuel beh ds w = Some w' \<and> getArticles w' = (r, w1) \<longrightarrow>
            read_array r w1 = stamp 0 ds
            \<and> map article_id (read_array r w1) = [1..int (length ds)]
            \<and> r \<noteq> LogArray
            \<and> read_array LogArray w1 = read_array LogArray w'
            \<and> (\<forall>f. read_array LogArray (array_update r f w1) = read_array LogArray w1)
            \<and> (\<forall>fuel' now a res w2.
                  (\<forall>c x v. copies (snd (beh c x v)) = copies v)
                  \<and> publish fuel' beh now a w1 = Some (res, w2) \<longrightarrow>
                  read_array r w2 = stamp 0 ds
                  \<and> read_array LogArray w2
                      = stamp 0 ds @ [enrich a (int (length ds) + 1) now])"
    proof (intro allI impI)
      fix w' r w1
      assume h: "publish_all fuel beh ds w = Some w' \<and> getArticles w' = (r, w1)"
      show "read_array r w1 = stamp 0 ds
            \<and> map article_id (read_array r w1) = [1..int (length ds)]
            \<and> r \<noteq> LogArray
            \<and> read_array LogArray w1 = read_array LogArray w'
            \<and> (\<forall>f. read_array LogArray (array_update r f w1) = read_array LogArray w1)
            \<and> (\<forall>fuel' now a res w2.
                  (\<forall>c x v. copies (snd (beh c x v)) = copies v)
                  \<and> publish fuel' beh now a w1 = Some (res, w2) \<longrightarrow>
                  read_array r w2 = stamp 0 ds
                  \<and> read_array LogArray w2
                      = stamp 0 ds @ [enrich a (int (length ds) + 1) now])"
        by (rule first[OF conjunct1[OF h] conjunct2[OF h]])
    qed
    show "(\<forall>c x w'. subscribers (snd (beh c x w')) = subscribers w')
            \<and> length (subscribers w) < fuel
            \<longrightarrow> (\<exists>w'. publish_all fuel beh ds w = Some w')"
      using second by blast
  qed
qed

theorem published_ids_consecutive_witness:
  "\<exists>w' r w1 res w2. publish_all 3 (throwing_table 2) three_drafts readers = Some w'
      \<and> getArticles w' = (r, w1)
      \<and> read_array r w1 = stamp 0 three_drafts
      \<and> map article_id (read_array r w1) = [1, 2, 3]
      \<and> r \<noteq> LogArray
      \<and> publish 3 (throwing_table 2) 40 tech_draft w1 = Some (res, w2)
      \<and> read_array r w2 = stamp 0 three_drafts
      \<and> read_array LogArray w2 = stamp 0 three_drafts @ [enrich tech_draft 4 40]"
proof -
  have a: "articles readers = []" "articleIdCounter readers = 0" by (simp_all add: readers_eq)
  have f: "\<forall>c (x::NewsArticle) w'. articles (snd (throwing_table 2 c x w')) = articles w'
              \<and> articleIdCounter (snd (throwing_table 2 c x w')) = articleIdCounter w'"
    by (simp add: throwing_table_def)
  have s: "\<forall>c (x::NewsArticle) (w'::publisher). subscribers (snd (throwing_table 2 c x w')) = subscribers w'"
    by (simp add: throwing_table_def)
  have cp: "\<forall>c (x::NewsArticle) (v::publisher). copies (snd (throwing_table 2 c x v)) = copies v"
    by (simp add: throwing_table_def)
  have l: "length (subscribers readers) < 3" by (simp add: readers_eq)
  have u: "[1..int (length three_drafts)] = [1, 2, 3]" "int (length three_drafts) + 1 = 4"
    by (simp_all add: three_drafts_def upto_rec1)
  note t = published_ids_consecutive[where beh = "throwing_table 2" and fuel = 3
      and ds = three_drafts, OF a f]
  from t s l obtain w' where run: "publish_all 3 (throwing_table 2) three_drafts readers = Some w'"
    by blast
  obtain r w1 where g: "getArticles w' = (r, w1)" by (cases "getArticles w'")
  have sub: "subscribers w1 = subscribers readers"
  proof -
    have "subscribers v' = subscribers v"
      if "publish_all 3 (throwing_table 2) ds v = Some v'" for ds v v'
      using that
    proof (induction ds arbitrary: v)
      case Nil
      then show ?case by simp
    next
      case (Cons d ds)
      obtain now a where d: "d = (now, a)" by (cases d)
      obtain x v1 where p: "publish 3 (throwing_table 2) now a v = Some (x, v1)"
        "publish_all 3 (throwing_table 2) ds v1 = Some v'"
        using Cons.prems d by (auto split: option.splits)
      obtain y where fe: "forEach 3 subscribers
          (news_call (throwing_table 2) (category a) (enrich a (articleIdCounter v + 1) now)) 0
          (v\<lparr>articleIdCounter := articleIdCounter v + 1,
             articles := articles v @ [enrich a (articleIdCounter v + 1) now]\<rparr>) = Some (y, v1)"
        using p(1) by (auto simp: publish_def Let_def split: option.splits prod.splits)
      have "subscribers v1 = subscribers v"
        using forEach_preserves[where P = "\<lambda>u :: publisher. subscribers u = subscribers v", OF _ _ fe]
        by (simp add: news_call_def Let_def throwing_table_def)
      then show ?case using Cons.IH[OF p(2)] by simp
    qed
    then have "subscribers w' = subscribers readers" using run by blast
    then show ?thesis using g by (auto simp: getArticles_def)
  qed
  obtain res w2 where p: "publish 3 (throwing_table 2) 40 tech_draft w1 = Some (res, w2)"
    using publish_returns[of "throwing_table 2" w1 3 40 tech_draft] s l sub by auto
  from t run g have
    "read_array r w1 = stamp 0 three_drafts"
    "map article_id (read_array r w1) = [1..int (length three_drafts)]"
    "r \<noteq> LogArray"
    by blast+
  moreover from t run g cp p have
    "read_array r w2 = stamp 0 three_drafts
     \<and> read_array LogArray w2
         = stamp 0 three_drafts @ [enrich tech_draft (int (length three_drafts) + 1) 40]"
    by blast
  ultimately show ?thesis using run g p u by auto
qed

section \<open>A subscriber that throws\<close>




section \<open>What the operations keep\<close>

text \<open>
  The theorems on delivery ask that a \<^verbatim>\<open>Set\<close> holds each callback once and that every
  entry of the subscriber map is keyed by its subscriber's id. New collections are so, and
  the operations of the classes keep them so.
\<close>

lemma distinct_listeners_on:
  "distinct (lives (listeners_of ev w)) \<Longrightarrow> distinct (lives (listeners_of ev (on ev c w)))"
  by (simp add: listeners_of_on distinct_lives_set_add)

lemma listeners_of_off: "listeners_of ev (off ev c w) = set_delete (listeners_of ev w) c"
  by (cases "events w ev") (simp_all add: off_def listeners_of_def set_delete_def)

lemma distinct_listeners_off:
  "distinct (lives (listeners_of ev w)) \<Longrightarrow> distinct (lives (listeners_of ev (off ev c w)))"
  by (simp add: listeners_of_off distinct_lives_set_delete)

lemma distinct_observers_subscribe:
  "distinct (lives (observers w)) \<Longrightarrow>
     distinct (lives (observers (w\<lparr>observers := set_add (observers w) c\<rparr>)))"
  by (simp add: distinct_lives_set_add)

lemma distinct_observers_unsubscribe:
  "distinct (lives (observers w)) \<Longrightarrow> distinct (lives (observers (unsubscribe c w)))"
  by (simp add: unsubscribe_def distinct_lives_set_delete)

lemma lives_map_delete: "lives (map_delete xs k) = filter (\<lambda>en. fst en \<noteq> k) (lives xs)"
  by (induction xs rule: lives.induct) (auto simp: map_delete_def)

lemma keyed_news_subscribe:
  assumes "\<forall>en\<in>set (lives (subscribers w)). sub_id (snd en) = fst en"
  shows "\<forall>en\<in>set (lives (subscribers (news_subscribe s w))). sub_id (snd en) = fst en"
proof (cases "sub_id s \<in> fst ` set (lives (subscribers w))")
  case True
  then show ?thesis using assms
    by (auto simp: news_subscribe_def lives_map_set_present)
next
  case False
  then show ?thesis using assms
    by (auto simp: news_subscribe_def map_set_def lives_append)
qed

lemma keyed_news_unsubscribe:
  assumes "\<forall>en\<in>set (lives (subscribers w)). sub_id (snd en) = fst en"
  shows "\<forall>en\<in>set (lives (subscribers (news_unsubscribe k w))). sub_id (snd en) = fst en"
  using assms by (simp add: news_unsubscribe_def lives_map_delete)

section \<open>NewsPublisher: the log under nested calls\<close>

text \<open>
  A callback may itself publish. Whatever the callbacks do, as long as each of them leaves
  the log numbered 1 up to the counter (as a nested \<^verbatim>\<open>publish\<close> does), so does the call.
\<close>

lemma publish_log_ok:
  assumes "\<forall>c x v. log_ok v \<longrightarrow> log_ok (snd (beh c x v))"
    and "log_ok w" and "publish fuel beh now a w = Some (r, w')"
  shows "log_ok w'"
proof -
  let ?art = "enrich a (articleIdCounter w + 1) now"
  let ?w1 = "w\<lparr>articleIdCounter := articleIdCounter w + 1, articles := articles w @ [?art]\<rparr>"
  obtain x where fe: "forEach fuel subscribers (news_call beh (category a) ?art) 0 ?w1 = Some (x, w')"
    using assms(3) by (auto simp: publish_def Let_def split: option.splits prod.splits)
  have "[1..articleIdCounter w + 1] = [1..articleIdCounter w] @ [articleIdCounter w + 1]"
    using assms(2) upto_rec2[of 1 "articleIdCounter w + 1"] by (simp add: log_ok_def)
  then have w1: "log_ok ?w1" using assms(2) by (simp add: log_ok_def enrich_def)
  show ?thesis
  proof (rule forEach_preserves[where P = log_ok, OF _ w1 fe])
    fix e :: "string \<times> NewsSubscriber" and v assume "log_ok v"
    then have "log_ok (v\<lparr>deliveries := deliveries v @ [(snd e, ?art)]\<rparr>)" by (simp add: log_ok_def)
    then show "log_ok (snd (news_call beh (category a) ?art e v))"
      using assms(1) \<open>log_ok v\<close> by (simp add: news_call_def Let_def)
  qed
qed

end
